theory Spec2Isabelle
  imports Complex_Main
begin

section \<open>Python values used by prepdocslib/textsplitter.py\<close>

text \<open>
  A Python \<open>str\<close> is a sequence of Unicode code points, and \<open>len\<close> and indexing count
  code points. The splitter's boundary sets contain CJK punctuation, so a text is modelled
  as the list of its code points.
\<close>

type_synonym pystr = "int list"

definition str :: "string \<Rightarrow> pystr" where
  "str s = map of_char s"

datatype error = IndexError | TypeError | ValueError

text \<open>\<open>len(xs)\<close> as a Python integer.\<close>

definition len :: "'a list \<Rightarrow> int" where
  "len xs = int (length xs)"

text \<open>\<open>xs[i]\<close>: a negative index counts from the end, an index out of range raises.\<close>

definition getitem :: "'a list \<Rightarrow> int \<Rightarrow> error + 'a" where
  "getitem xs i =
     (let n = len xs; j = (if i < 0 then n + i else i)
      in if 0 \<le> j \<and> j < n then Inr (xs ! nat j) else Inl IndexError)"

text \<open>
  \<open>xs[i:j]\<close>, \<open>xs[:j]\<close> and \<open>xs[i:]\<close>: a negative bound counts from the end, and bounds
  are clamped to the sequence; a slice never raises.
\<close>

definition clamp_index :: "int \<Rightarrow> int \<Rightarrow> int" where
  "clamp_index n i = (if i < 0 then max 0 (n + i) else min i n)"

definition slice :: "'a list \<Rightarrow> int \<Rightarrow> int \<Rightarrow> 'a list" where
  "slice xs i j =
     (let a = clamp_index (len xs) i; b = clamp_index (len xs) j
      in take (nat (b - a)) (drop (nat a) xs))"

definition slice_to :: "'a list \<Rightarrow> int \<Rightarrow> 'a list" where
  "slice_to xs j = take (nat (clamp_index (len xs) j)) xs"

definition slice_from :: "'a list \<Rightarrow> int \<Rightarrow> 'a list" where
  "slice_from xs i = drop (nat (clamp_index (len xs) i)) xs"

text \<open>\<open>str.isspace\<close> of one code point, and \<open>str.strip()\<close> without argument.\<close>

definition isspace :: "int \<Rightarrow> bool" where
  "isspace c \<longleftrightarrow>
     (0x9 \<le> c \<and> c \<le> 0xD) \<or> (0x1C \<le> c \<and> c \<le> 0x20) \<or> c = 0x85 \<or> c = 0xA0 \<or>
     c = 0x1680 \<or> (0x2000 \<le> c \<and> c \<le> 0x200A) \<or> c = 0x2028 \<or> c = 0x2029 \<or>
     c = 0x202F \<or> c = 0x205F \<or> c = 0x3000"

definition strip :: "pystr \<Rightarrow> pystr" where
  "strip s = rev (dropWhile isspace (rev (dropWhile isspace s)))"

text \<open>\<open>s.rfind(sub)\<close>: the highest index at which \<open>sub\<close> starts in \<open>s\<close>, or \<open>-1\<close>.\<close>

fun rfind_scan :: "'a list \<Rightarrow> 'a list \<Rightarrow> int \<Rightarrow> int \<Rightarrow> int" where
  "rfind_scan sub [] i best = (if sub = [] then i else best)"
| "rfind_scan sub (x # xs) i best =
     rfind_scan sub xs (i + 1) (if take (length sub) (x # xs) = sub then i else best)"

definition rfind :: "'a list \<Rightarrow> 'a list \<Rightarrow> int" where
  "rfind s sub = rfind_scan sub s 0 (- 1)"

section \<open>Pages\<close>

text \<open>
  \<open>Page(page_num, offset, text)\<close> and \<open>SplitPage(page_num, text)\<close>. A page number is an
  integer for document pages and a sheet name for workbook sheets; the offset is
  \<open>None\<close> for sheets; the text of a sheet page is the worksheet itself. The field
  \<open>text\<close> is named \<open>page_text\<close> here.
\<close>

datatype page_id = Num int | Name pystr

record 't Page =
  page_num :: page_id
  offset :: "int option"
  page_text :: 't

datatype SplitPage = SplitPage (sp_page_num: page_id) (sp_text: pystr)

text \<open>
  A generator's run: the fragments it yielded, and the exception that ended it, if any.
  A run that never ends has no outcome (\<open>None\<close> below).
\<close>

type_synonym outcome = "SplitPage list \<times> error option"

section \<open>Module constants\<close>

definition STANDARD_WORD_BREAKS :: "int list" where
  "STANDARD_WORD_BREAKS = str '',;: ()[]{}'' @ [0x9, 0xA]"

definition CJK_WORD_BREAKS :: "int list" where
  "CJK_WORD_BREAKS =
     [0x3001, 0xFF0C, 0xFF1B, 0xFF1A, 0xFF08, 0xFF09, 0x3010, 0x3011, 0x300C, 0x300D,
      0x300E, 0x300F, 0x3014, 0x3015, 0x3008, 0x3009, 0x300A, 0x300B, 0x3016, 0x3017,
      0x3018, 0x3019, 0x301A, 0x301B, 0x301D, 0x301E, 0x301F, 0x3030, 0x2013, 0x2014,
      0x2018, 0x2019, 0x201A, 0x201B, 0x201C, 0x201D, 0x201E, 0x201F, 0x2039, 0x203A]"

definition STANDARD_SENTENCE_ENDINGS :: "int list" where
  "STANDARD_SENTENCE_ENDINGS = str ''.!?''"

definition CJK_SENTENCE_ENDINGS :: "int list" where
  "CJK_SENTENCE_ENDINGS = [0x3002, 0xFF01, 0xFF1F, 0x203C, 0x2047, 0x2048, 0x2049]"

definition DEFAULT_OVERLAP_PERCENT :: int where
  "DEFAULT_OVERLAP_PERCENT = 10"

definition DEFAULT_SECTION_LENGTH :: int where
  "DEFAULT_SECTION_LENGTH = 1000"

section \<open>SentenceTextSplitter\<close>

record SentenceTextSplitter =
  sentence_endings :: "int list"
  word_breaks :: "int list"
  max_section_length :: int
  sentence_search_limit :: int
  max_tokens_per_section :: int
  section_overlap :: int

text \<open>\<open>__init__(max_tokens_per_section)\<close>.\<close>

definition init :: "int \<Rightarrow> SentenceTextSplitter" where
  "init max_tokens =
     \<lparr> sentence_endings = STANDARD_SENTENCE_ENDINGS @ CJK_SENTENCE_ENDINGS,
       word_breaks = STANDARD_WORD_BREAKS @ CJK_WORD_BREAKS,
       max_section_length = DEFAULT_SECTION_LENGTH,
       sentence_search_limit = 100,
       max_tokens_per_section = max_tokens,
       section_overlap = DEFAULT_SECTION_LENGTH * DEFAULT_OVERLAP_PERCENT div 100 \<rparr>"

subsection \<open>split_page_by_max_tokens\<close>

text \<open>
  The \<open>while\<close> loop of lines 116 to 124: the search spirals outward from \<open>start\<close> and
  returns the split position, or \<open>-1\<close> when the guard \<open>start - pos > boundary\<close> fails
  first. Each character read is a checked \<open>getitem\<close>.
\<close>

function spiral :: "int list \<Rightarrow> pystr \<Rightarrow> int \<Rightarrow> int \<Rightarrow> int \<Rightarrow> error + int" where
  "spiral endings txt start boundary pos =
     (if start - pos > boundary then
        (case getitem txt (start - pos) of
           Inl e \<Rightarrow> Inl e
         | Inr c \<Rightarrow>
             if c \<in> set endings then Inr (start - pos)
             else (case getitem txt (start + pos) of
                     Inl e \<Rightarrow> Inl e
                   | Inr d \<Rightarrow>
                       if d \<in> set endings then Inr (start + pos)
                       else spiral endings txt start boundary (pos + 1)))
      else Inr (- 1))"
  by pat_completeness auto
termination
  by (relation "measure (\<lambda>(endings, txt, start, boundary, pos). nat (start - pos - boundary))")
    auto

declare spiral.simps [simp del]

definition find_split :: "SentenceTextSplitter \<Rightarrow> pystr \<Rightarrow> error + int" where
  "find_split self txt =
     spiral (sentence_endings self) txt (len txt div 2) (len txt div 3) 0"

text \<open>
  Lines 126 to 135: the two halves for a split position. The overlap is
  \<open>int(len(text) * (DEFAULT_OVERLAP_PERCENT / 100))\<close>, which is \<open>len(text) div 10\<close>
  for every length a text can have.
\<close>

definition halves :: "pystr \<Rightarrow> int \<Rightarrow> pystr \<times> pystr" where
  "halves txt split_position =
     (if split_position > 0 then
        (slice_to txt (split_position + 1), slice_from txt (split_position + 1))
      else
        (let middle = len txt div 2;
             overlap = len txt * DEFAULT_OVERLAP_PERCENT div 100
         in (slice_to txt (middle + overlap), slice_from txt (middle - overlap))))"

text \<open>
  The recursive generator. \<open>bpe\<close> is the external token counter
  \<open>len(bpe.encode(text))\<close>. The recursion need not end, so the function is partial.
\<close>

partial_function (option) split_page_by_max_tokens ::
  "SentenceTextSplitter \<Rightarrow> (pystr \<Rightarrow> nat) \<Rightarrow> page_id \<Rightarrow> pystr \<Rightarrow> outcome option" where
  "split_page_by_max_tokens self bpe pn txt =
     (if int (bpe txt) \<le> max_tokens_per_section self then
        Some ([SplitPage pn txt], None)
      else
        (case find_split self txt of
           Inl e \<Rightarrow> Some ([], Some e)
         | Inr split_position \<Rightarrow>
             Option.bind
               (split_page_by_max_tokens self bpe pn (fst (halves txt split_position)))
               (\<lambda>r1. case snd r1 of
                  Some e \<Rightarrow> Some r1
                | None \<Rightarrow>
                    Option.bind
                      (split_page_by_max_tokens self bpe pn (snd (halves txt split_position)))
                      (\<lambda>r2. Some (fst r1 @ fst r2, snd r2)))))"

declare split_page_by_max_tokens.simps [code]

text \<open>
  The inputs on which the recursion makes no progress: the text is over the budget and
  one of its two halves is the text itself.
\<close>

definition stuck :: "SentenceTextSplitter \<Rightarrow> (pystr \<Rightarrow> nat) \<Rightarrow> pystr \<Rightarrow> bool" where
  "stuck self bpe txt \<longleftrightarrow>
     max_tokens_per_section self < int (bpe txt) \<and>
     (length txt = 1 \<or> (length txt = 2 \<and> txt ! 1 \<in> set (sentence_endings self)))"

subsection \<open>split_pages\<close>

text \<open>
  The nested \<open>find_page(offset)\<close>. \<open>pages[num_pages - 1]\<close> of an empty list raises
  IndexError; comparing an integer with an offset that is \<open>None\<close> raises TypeError, and
  \<open>and\<close> evaluates its second comparison only when the first holds.
\<close>

fun find_page :: "'t Page list \<Rightarrow> int \<Rightarrow> error + page_id" where
  "find_page [] off = Inl IndexError"
| "find_page [p] off = Inr (page_num p)"
| "find_page (p # q # ps) off =
     (case offset p of
        None \<Rightarrow> Inl TypeError
      | Some a \<Rightarrow>
          if off \<ge> a then
            (case offset q of
               None \<Rightarrow> Inl TypeError
             | Some b \<Rightarrow> if off < b then Inr (page_num p) else find_page (q # ps) off)
          else find_page (q # ps) off)"

text \<open>Lines 166 to 173: the forward search for the end of the sentence.\<close>

function forward_search ::
  "SentenceTextSplitter \<Rightarrow> pystr \<Rightarrow> int \<Rightarrow> int \<Rightarrow> int \<Rightarrow> error + (int \<times> int)" where
  "forward_search self all_text start end last_word =
     (if end < len all_text \<and>
         end - start - max_section_length self < sentence_search_limit self then
        (case getitem all_text end of
           Inl e \<Rightarrow> Inl e
         | Inr c \<Rightarrow>
             if c \<notin> set (sentence_endings self) then
               forward_search self all_text start (end + 1)
                 (if c \<in> set (word_breaks self) then end else last_word)
             else Inr (end, last_word))
      else Inr (end, last_word))"
  by pat_completeness auto
termination
  by (relation "measure (\<lambda>(self, all_text, start, end, last_word). nat (len all_text - end))")
    auto

declare forward_search.simps [simp del]

text \<open>Lines 159 to 177: the end of the window that starts at \<open>start\<close>.\<close>

definition find_end :: "SentenceTextSplitter \<Rightarrow> pystr \<Rightarrow> int \<Rightarrow> error + int" where
  "find_end self all_text start =
     (let length = len all_text;
          end = start + max_section_length self
      in if end > length then Inr length
         else
           (case forward_search self all_text start end (- 1) of
              Inl e \<Rightarrow> Inl e
            | Inr (end, last_word) \<Rightarrow>
                if end < length then
                  (case getitem all_text end of
                     Inl e \<Rightarrow> Inl e
                   | Inr c \<Rightarrow>
                       let end = (if c \<notin> set (sentence_endings self) \<and> last_word > 0
                                  then last_word else end)
                       in Inr (if end < length then end + 1 else end))
                else Inr end))"

text \<open>Lines 181 to 188: the backward search for the start of the sentence.\<close>

function backward_search ::
  "SentenceTextSplitter \<Rightarrow> pystr \<Rightarrow> int \<Rightarrow> int \<Rightarrow> int \<Rightarrow> error + (int \<times> int)" where
  "backward_search self all_text start end last_word =
     (if start > 0 \<and>
         start > end - max_section_length self - 2 * sentence_search_limit self then
        (case getitem all_text start of
           Inl e \<Rightarrow> Inl e
         | Inr c \<Rightarrow>
             if c \<notin> set (sentence_endings self) then
               backward_search self all_text (start - 1) end
                 (if c \<in> set (word_breaks self) then start else last_word)
             else Inr (start, last_word))
      else Inr (start, last_word))"
  by pat_completeness auto
termination
  by (relation "measure (\<lambda>(self, all_text, start, end, last_word). nat start)") auto

declare backward_search.simps [simp del]

text \<open>Lines 180 to 192: the start of the window, given its end.\<close>

definition find_start :: "SentenceTextSplitter \<Rightarrow> pystr \<Rightarrow> int \<Rightarrow> int \<Rightarrow> error + int" where
  "find_start self all_text start end =
     (case backward_search self all_text start end (- 1) of
        Inl e \<Rightarrow> Inl e
      | Inr (start, last_word) \<Rightarrow>
          (case getitem all_text start of
             Inl e \<Rightarrow> Inl e
           | Inr c \<Rightarrow>
               let start = (if c \<notin> set (sentence_endings self) \<and> last_word > 0
                            then last_word else start)
               in Inr (if start > 0 then start + 1 else start)))"

text \<open>
  Lines 197 to 207: where the next iteration starts. In the figure branch the log message
  evaluates \<open>find_page(start)\<close> at the new start, which can raise.
\<close>

definition unclosed_figure :: "SentenceTextSplitter \<Rightarrow> pystr \<Rightarrow> bool" where
  "unclosed_figure self section_text \<longleftrightarrow>
     (let last_figure_start = rfind section_text (str ''<figure'')
      in last_figure_start > 2 * sentence_search_limit self \<and>
         last_figure_start > rfind section_text (str ''</figure''))"

definition next_start ::
  "SentenceTextSplitter \<Rightarrow> 't Page list \<Rightarrow> pystr \<Rightarrow> int \<Rightarrow> int \<Rightarrow> error + int" where
  "next_start self pages section_text start end =
     (let last_figure_start = rfind section_text (str ''<figure'')
      in if last_figure_start > 2 * sentence_search_limit self \<and>
            last_figure_start > rfind section_text (str ''</figure'') then
           (let start = min (end - section_overlap self) (start + last_figure_start)
            in case find_page pages start of Inl e \<Rightarrow> Inl e | Inr _ \<Rightarrow> Inr start)
         else Inr (end - section_overlap self))"

text \<open>
  Lines 158 to 210: the \<open>while\<close> loop over windows and the trailing fragment. The loop
  need not end, so the function is partial.
\<close>

partial_function (option) window_loop ::
  "SentenceTextSplitter \<Rightarrow> (pystr \<Rightarrow> nat) \<Rightarrow> pystr Page list \<Rightarrow> pystr \<Rightarrow> int \<Rightarrow> int \<Rightarrow>
   outcome option" where
  "window_loop self bpe pages all_text start end =
     (if start + section_overlap self < len all_text then
        (case find_end self all_text start of
           Inl e \<Rightarrow> Some ([], Some e)
         | Inr end \<Rightarrow>
             (case find_start self all_text start end of
                Inl e \<Rightarrow> Some ([], Some e)
              | Inr start \<Rightarrow>
                  (case find_page pages start of
                     Inl e \<Rightarrow> Some ([], Some e)
                   | Inr pn \<Rightarrow>
                       Option.bind
                         (split_page_by_max_tokens self bpe pn (slice all_text start end))
                         (\<lambda>r1. case snd r1 of
                            Some e \<Rightarrow> Some r1
                          | None \<Rightarrow>
                              (case next_start self pages (slice all_text start end) start end of
                                 Inl e \<Rightarrow> Some (fst r1, Some e)
                               | Inr start \<Rightarrow>
                                   Option.bind
                                     (window_loop self bpe pages all_text start end)
                                     (\<lambda>r2. Some (fst r1 @ fst r2, snd r2)))))))
      else if start + section_overlap self < end then
        (case find_page pages start of
           Inl e \<Rightarrow> Some ([], Some e)
         | Inr pn \<Rightarrow> split_page_by_max_tokens self bpe pn (slice all_text start end))
      else Some ([], None))"

declare window_loop.simps [code]

definition split_pages ::
  "SentenceTextSplitter \<Rightarrow> (pystr \<Rightarrow> nat) \<Rightarrow> pystr Page list \<Rightarrow> outcome option" where
  "split_pages self bpe pages =
     (let all_text = concat (map page_text pages)
      in if len (strip all_text) = 0 then Some ([], None)
         else
           (let length = len all_text
            in if length \<le> max_section_length self then
                 (case find_page pages 0 of
                    Inl e \<Rightarrow> Some ([], Some e)
                  | Inr pn \<Rightarrow> split_page_by_max_tokens self bpe pn all_text)
               else window_loop self bpe pages all_text 0 length))"

section \<open>SimpleTextSplitter\<close>

record SimpleTextSplitter =
  max_object_length :: int

text \<open>
  The values of \<open>range(i, stop, step)\<close> for a step other than 0; \<open>range\<close> raises
  ValueError when the step is 0.
\<close>

function py_range :: "int \<Rightarrow> int \<Rightarrow> int \<Rightarrow> int list" where
  "py_range i stop step =
     (if (0 < step \<and> i < stop) \<or> (step < 0 \<and> stop < i)
      then i # py_range (i + step) stop step else [])"
  by pat_completeness auto
termination
  by (relation "measure (\<lambda>(i, stop, step). nat (if 0 < step then stop - i else i - stop))")
    auto

declare py_range.simps [simp del]

definition simple_split_pages :: "SimpleTextSplitter \<Rightarrow> pystr Page list \<Rightarrow> outcome" where
  "simple_split_pages self pages =
     (let all_text = concat (map page_text pages)
      in if len (strip all_text) = 0 then ([], None)
         else
           (let length = len all_text
            in if length \<le> max_object_length self then
                 ([SplitPage (Num 0) all_text], None)
               else if max_object_length self = 0 then ([], Some ValueError)
               else
                 (map (\<lambda>i. SplitPage (Num (i div max_object_length self))
                             (slice all_text i (i + max_object_length self)))
                    (py_range 0 length (max_object_length self)),
                  None)))"

section \<open>ExcelSplitter\<close>

text \<open>
  The worksheet of a sheet page, as the splitter reads it: \<open>sheet[1]\<close> is the first row
  and \<open>sheet.iter_rows(min_row=2)\<close> the rows after it; a cell's \<open>value\<close> is \<open>None\<close> or a
  value of the workbook's cell type \<open>'v\<close>. Python's \<open>str\<close> on such a value is the
  parameter \<open>to_str\<close>, and \<open>tabulate(rows, headers="firstrow", tablefmt="grid")\<close> is the
  parameter \<open>tabulate\<close>. A table cell handed to \<open>tabulate\<close> is a raw header value or a
  string.
\<close>

record 'v Worksheet =
  first_row :: "'v option list"
  rows_from_2 :: "'v option list list"

datatype 'v table_cell = Raw 'v | Text pystr

definition get_sheet_data ::
  "('v \<Rightarrow> pystr) \<Rightarrow> 'v Worksheet \<Rightarrow> pystr list list \<times> 'v table_cell list" where
  "get_sheet_data to_str sheet =
     (let data =
            filter (\<lambda>row_data. strip (concat row_data) \<noteq> [])
              (map (map (\<lambda>cell_value. case cell_value of None \<Rightarrow> [] | Some v \<Rightarrow> to_str v))
                 (rows_from_2 sheet));
          headers = map (\<lambda>v. case v of None \<Rightarrow> Text [] | Some x \<Rightarrow> Raw x) (first_row sheet)
      in (data, headers))"

text \<open>\<open>str.splitlines()\<close>, \<open>str.split(sep)\<close> for a one-character separator, \<open>sep.join\<close>.\<close>

definition is_linebreak :: "int \<Rightarrow> bool" where
  "is_linebreak c \<longleftrightarrow>
     c \<in> {0xA, 0xB, 0xC, 0xD, 0x1C, 0x1D, 0x1E, 0x85, 0x2028, 0x2029}"

fun splitlines_from :: "pystr \<Rightarrow> pystr \<Rightarrow> pystr list" where
  "splitlines_from cur [] = (if cur = [] then [] else [cur])"
| "splitlines_from cur [c] = (if is_linebreak c then [cur] else [cur @ [c]])"
| "splitlines_from cur (c # d # cs) =
     (if c = 0xD \<and> d = 0xA then cur # splitlines_from [] cs
      else if is_linebreak c then cur # splitlines_from [] (d # cs)
      else splitlines_from (cur @ [c]) (d # cs))"

definition splitlines :: "pystr \<Rightarrow> pystr list" where
  "splitlines s = splitlines_from [] s"

fun split_from :: "int \<Rightarrow> pystr \<Rightarrow> pystr \<Rightarrow> pystr list" where
  "split_from sep cur [] = [cur]"
| "split_from sep cur (c # cs) =
     (if c = sep then cur # split_from sep [] cs else split_from sep (cur @ [c]) cs)"

definition split :: "pystr \<Rightarrow> int \<Rightarrow> pystr list" where
  "split s sep = split_from sep [] s"

fun join :: "pystr \<Rightarrow> pystr list \<Rightarrow> pystr" where
  "join sep [] = []"
| "join sep [x] = x"
| "join sep (x # y # ys) = x @ sep @ join sep (y # ys)"

definition clean_markdown_table :: "pystr \<Rightarrow> pystr" where
  "clean_markdown_table table_str =
     join [0xA]
       (map (\<lambda>line.
               if set (strip line) \<subseteq> set (str ''-| '') then line
               else
                 (let cells = split line 0x7C;
                      stripped_cells = map strip (slice cells 1 (- 1))
                  in str ''| '' @ join (str '' | '') stripped_cells @ str '' |''))
          (splitlines table_str))"

text \<open>
  \<open>pd.notna(cell)\<close> on a cell of a data row: every such cell is a \<open>str\<close> built by
  \<open>get_sheet_data\<close>, and \<open>pd.notna\<close> of a \<open>str\<close> is \<open>True\<close>.
\<close>

definition notna :: "pystr \<Rightarrow> bool" where
  "notna cell = True"

text \<open>Lines 247 to 259: the fragments of one sheet page, and \<open>split_pages\<close> over all.\<close>

definition sheet_fragments ::
  "('v \<Rightarrow> pystr) \<Rightarrow> ('v table_cell list list \<Rightarrow> pystr) \<Rightarrow> 'v Worksheet Page \<Rightarrow>
   SplitPage list" where
  "sheet_fragments to_str tabulate sheet_page =
     (let sheet = page_text sheet_page;
          (data, headers) = get_sheet_data to_str sheet;
          rows = data;
          step = 50
      in map (\<lambda>start_row.
                let chunk_rows = slice rows start_row (start_row + step);
                    chunk_rows = map (map (\<lambda>cell. if notna cell then cell else [])) chunk_rows;
                    table = tabulate (headers # map (map Text) chunk_rows);
                    table = clean_markdown_table table
                in SplitPage (page_num sheet_page) table)
           (py_range 0 (len rows) step))"

definition excel_split_pages ::
  "('v \<Rightarrow> pystr) \<Rightarrow> ('v table_cell list list \<Rightarrow> pystr) \<Rightarrow> 'v Worksheet Page list \<Rightarrow>
   SplitPage list" where
  "excel_split_pages to_str tabulate pages =
     concat (map (sheet_fragments to_str tabulate) pages)"

section \<open>Inputs used in examples\<close>

text \<open>Two pages of a document, and a document whose first page is blank.\<close>

definition two_pages :: "pystr Page list" where
  "two_pages = [\<lparr>page_num = Num 0, offset = Some 0, page_text = str ''Hello world. ''\<rparr>,
                \<lparr>page_num = Num 1, offset = Some 13, page_text = str ''Bye now.''\<rparr>]"

definition blank_first_page :: "pystr Page list" where
  "blank_first_page = [\<lparr>page_num = Num 0, offset = Some 0, page_text = []\<rparr>,
                \<lparr>page_num = Num 1, offset = Some 0, page_text = str ''abc''\<rparr>]"

text \<open>
  A sheet with a header row and 120 data rows, and a sheet whose rows after the header
  are all blank.
\<close>

definition sheet_120 :: "pystr Worksheet Page" where
  "sheet_120 =
     \<lparr>page_num = Name (str ''Sheet1''), offset = None,
      page_text = \<lparr>first_row = [Some (str ''A''), Some (str ''B'')],
                   rows_from_2 = replicate 120 [Some (str ''1''), None]\<rparr>\<rparr>"

definition blank_sheet :: "pystr Worksheet Page" where
  "blank_sheet =
     \<lparr>page_num = Name (str ''Sheet2''), offset = None,
      page_text = \<lparr>first_row = [Some (str ''A''), Some (str ''B'')],
                   rows_from_2 = [[None, Some []], [None, None], [Some (str '' ''), None]]\<rparr>\<rparr>"

section \<open>Notions used in the statements about sheets\<close>

text \<open>
  The cell texts of a row (the empty string for a cell without value), a blank row
  (its cell texts join to a string that is empty after stripping), and the fragment
  that lines 254 to 259 build from one block of rows.
\<close>

definition cell_texts :: "('v \<Rightarrow> pystr) \<Rightarrow> 'v option list \<Rightarrow> pystr list" where
  "cell_texts to_str row = map (\<lambda>v. case v of None \<Rightarrow> [] | Some x \<Rightarrow> to_str x) row"

definition blank_row :: "('v \<Rightarrow> pystr) \<Rightarrow> 'v option list \<Rightarrow> bool" where
  "blank_row to_str row \<longleftrightarrow> strip (concat (cell_texts to_str row)) = []"

definition render_block ::
  "('v table_cell list list \<Rightarrow> pystr) \<Rightarrow> page_id \<Rightarrow> 'v table_cell list \<Rightarrow> pystr list list \<Rightarrow>
   SplitPage" where
  "render_block tabulate pn headers block =
     SplitPage pn (clean_markdown_table (tabulate (headers # map (map Text) block)))"

section \<open>Notions used in the statements about figures\<close>

text \<open>\<open>sub\<close> occurs in \<open>s\<close> at index \<open>j\<close>: \<open>s[j : j + len(sub)] == sub\<close>.\<close>

definition occurs_at :: "'a list \<Rightarrow> 'a list \<Rightarrow> nat \<Rightarrow> bool" where
  "occurs_at s sub j \<longleftrightarrow> take (length sub) (drop j s) = sub"

text \<open>
  A text of 1100 characters with sentence endings at indices 901 and 1000, as a one-page
  document; and a text of 1100 characters with a sentence ending at index 599, the tag
  \<open><figure>\<close> at index 600 and a sentence ending at index 1000, as a one-page document.
\<close>

definition overlap_text :: pystr where
  "overlap_text =
     replicate 901 0x61 @ [0x2E] @ replicate 98 0x61 @ [0x2E] @ replicate 99 0x61"

definition overlap_doc :: "pystr Page list" where
  "overlap_doc = [\<lparr>page_num = Num 0, offset = Some 0, page_text = overlap_text\<rparr>]"



section \<open>Facts about split_page_by_max_tokens\<close>

lemma getitem_in_range:
  "0 \<le> i \<Longrightarrow> i < len xs \<Longrightarrow> getitem xs i = Inr (xs ! nat i)"
  by (simp add: getitem_def Let_def)

lemma spiral_result:
  "0 \<le> pos \<Longrightarrow> 0 \<le> boundary \<Longrightarrow> 2 * start - boundary \<le> len t \<Longrightarrow>
   \<exists>r. spiral endings t start boundary pos = Inr r \<and>
       (r = - 1 \<or> (boundary < r \<and> r < 2 * start - boundary))"
proof (induction endings t start boundary pos rule: spiral.induct)
  case (1 endings t start boundary pos)
  show ?case
  proof (cases "start - pos > boundary")
    case False
    then show ?thesis by (subst spiral.simps) simp
  next
    case True
    with "1.prems" have lo: "0 \<le> start - pos" "start - pos < len t"
      and hi: "0 \<le> start + pos" "start + pos < len t"
      by linarith+
    have g1: "getitem t (start - pos) = Inr (t ! nat (start - pos))"
      using lo by (rule getitem_in_range)
    have g2: "getitem t (start + pos) = Inr (t ! nat (start + pos))"
      using hi by (rule getitem_in_range)
    show ?thesis
    proof (cases "t ! nat (start - pos) \<in> set endings")
      case c1: True
      with True g1 "1.prems" show ?thesis by (subst spiral.simps) simp
    next
      case c1: False
      show ?thesis
      proof (cases "t ! nat (start + pos) \<in> set endings")
        case c2: True
        with True g1 g2 c1 "1.prems" show ?thesis by (subst spiral.simps) simp
      next
        case c2: False
        have "\<exists>r. spiral endings t start boundary (pos + 1) = Inr r \<and>
                (r = - 1 \<or> (boundary < r \<and> r < 2 * start - boundary))"
          using "1.IH"[OF True g1 c1 g2 c2] "1.prems" by simp
        with True g1 g2 c1 c2 show ?thesis by (subst spiral.simps) simp
      qed
    qed
  qed
qed

lemma find_split_result:
  "\<exists>r. find_split self txt = Inr r \<and>
       (r = - 1 \<or> (len txt div 3 < r \<and> r < 2 * (len txt div 2) - len txt div 3))"
  unfolding find_split_def
  by (rule spiral_result) (simp_all add: len_def)

lemma halves_shorter:
  assumes "r = - 1 \<or> (len txt div 3 < r \<and> r < 2 * (len txt div 2) - len txt div 3)"
    and "3 \<le> length txt \<or> (length txt = 2 \<and> r = - 1)"
  shows "length (fst (halves txt r)) < length txt \<and> length (snd (halves txt r)) < length txt"
  using assms
  by (auto simp: halves_def slice_to_def slice_from_def clamp_index_def len_def Let_def
      DEFAULT_OVERLAP_PERCENT_def)



lemma stuck_halves:
  assumes "stuck self bpe t"
  shows "\<exists>r. find_split self t = Inr r \<and>
             (halves t r = ([], t) \<or> halves t r = (t, []))"
proof -
  from assms consider (one) "length t = 1"
    | (two) "length t = 2" "t ! 1 \<in> set (sentence_endings self)"
    unfolding stuck_def by blast
  then show ?thesis
  proof cases
    case one
    then have "find_split self t = Inr (- 1)"
      by (simp add: find_split_def len_def spiral.simps)
    moreover from one have "halves t (- 1) = ([], t)"
      by (simp add: halves_def slice_to_def slice_from_def clamp_index_def len_def
          DEFAULT_OVERLAP_PERCENT_def)
    ultimately show ?thesis by blast
  next
    case two
    then have "find_split self t = Inr 1"
      by (simp add: find_split_def len_def getitem_def spiral.simps)
    moreover from two have "halves t 1 = (t, [])"
      by (simp add: halves_def slice_to_def slice_from_def clamp_index_def len_def)
    ultimately show ?thesis by blast
  qed
qed

lemma split_run:
  assumes run: "split_page_by_max_tokens self bpe pn t = Some y"
  shows "snd y = None \<and> \<not> stuck self bpe t \<and>
   (\<forall>f \<in> set (fst y). int (bpe (sp_text f)) \<le> max_tokens_per_section self \<and> sp_page_num f = pn)"
proof (rule split_page_by_max_tokens.raw_induct[OF _ run, where P = "\<lambda>self bpe pn t y.
   snd y = None \<and> \<not> stuck self bpe t \<and>
   (\<forall>f \<in> set (fst y). int (bpe (sp_text f)) \<le> max_tokens_per_section self \<and> sp_page_num f = pn)"], goal_cases)
  case (1 rec self bpe pn t y)
  note IH = 1(1) and body = 1(2)
  show ?case
  proof (cases "int (bpe t) \<le> max_tokens_per_section self")
    case True
    with body show ?thesis by (auto simp: stuck_def)
  next
    case False
    obtain r where r: "find_split self t = Inr r"
      using find_split_result by blast
    from body False r have body': "Option.bind (rec self bpe pn (fst (halves t r)))
               (\<lambda>r1. case snd r1 of
                  Some e \<Rightarrow> Some r1
                | None \<Rightarrow>
                    Option.bind (rec self bpe pn (snd (halves t r)))
                      (\<lambda>r2. Some (fst r1 @ fst r2, snd r2))) = Some y"
      by simp
    then obtain r1 where
      r1: "rec self bpe pn (fst (halves t r)) = Some r1"
      and rest: "(case snd r1 of
                    Some e \<Rightarrow> Some r1
                  | None \<Rightarrow> Option.bind (rec self bpe pn (snd (halves t r)))
                              (\<lambda>r2. Some (fst r1 @ fst r2, snd r2))) = Some y"
      by (auto simp: bind_eq_Some_conv)
    from IH[OF r1] have s1: "snd r1 = None"
      and n1: "\<not> stuck self bpe (fst (halves t r))"
      and b1: "\<forall>f \<in> set (fst r1). int (bpe (sp_text f)) \<le> max_tokens_per_section self \<and> sp_page_num f = pn"
      by blast+
    from rest s1 obtain r2 where
      r2: "rec self bpe pn (snd (halves t r)) = Some r2" and y: "y = (fst r1 @ fst r2, snd r2)"
      by (auto simp: bind_eq_Some_conv)
    from IH[OF r2] have n2: "\<not> stuck self bpe (snd (halves t r))" by blast
    have "\<not> stuck self bpe t"
    proof
      assume "stuck self bpe t"
      from stuck_halves[OF this] r have "halves t r = ([], t) \<or> halves t r = (t, [])" by auto
      with n1 n2 \<open>stuck self bpe t\<close> show False by auto
    qed
    with IH[OF r2] b1 y show ?thesis by auto
  qed
qed

lemma split_total:
  assumes small: "\<forall>s. length s \<le> 2 \<longrightarrow> int (bpe s) \<le> max_tokens_per_section self"
  shows "\<exists>frags. split_page_by_max_tokens self bpe pn t = Some (frags, None)"
proof (induction t rule: measure_induct_rule [where f = length])
  case (less t)
  show ?case
  proof (cases "int (bpe t) \<le> max_tokens_per_section self")
    case True
    then show ?thesis by (subst split_page_by_max_tokens.simps) simp
  next
    case False
    with small have "\<not> length t \<le> 2" by blast
    then have long: "3 \<le> length t \<or> (length t = 2 \<and> (- 1 :: int) = - 1)" by simp
    obtain r where r: "find_split self t = Inr r"
      and rr: "r = - 1 \<or> (len t div 3 < r \<and> r < 2 * (len t div 2) - len t div 3)"
      using find_split_result by blast
    have long': "3 \<le> length t \<or> (length t = 2 \<and> r = - 1)" using \<open>\<not> length t \<le> 2\<close> by simp
    from halves_shorter[OF rr long']
    have l1: "length (fst (halves t r)) < length t" and l2: "length (snd (halves t r)) < length t"
      by blast+
    from less.IH[OF l1] obtain f1 where
      f1: "split_page_by_max_tokens self bpe pn (fst (halves t r)) = Some (f1, None)" by blast
    from less.IH[OF l2] obtain f2 where
      f2: "split_page_by_max_tokens self bpe pn (snd (halves t r)) = Some (f2, None)" by blast
    show ?thesis
      by (subst split_page_by_max_tokens.simps) (simp add: False r f1 f2)
  qed
qed


lemma split_diverges:
  "stuck self bpe t \<Longrightarrow> split_page_by_max_tokens self bpe pn t = None"
  using split_run[of self bpe pn t] by (cases "split_page_by_max_tokens self bpe pn t") auto

text \<open>
  C9. In the spiral search of \<open>split_page_by_max_tokens\<close> no character access is out of
  range: the search always returns a split position and never raises, and whenever the
  loop guard \<open>start - pos > boundary\<close> holds, with \<open>start = len(text) // 2\<close>,
  \<open>boundary = len(text) // 3\<close> and \<open>pos \<ge> 0\<close>, both \<open>start - pos\<close> and \<open>start + pos\<close> lie
  in \<open>[0, len(text))\<close>, so both reads are plain in-range reads.
\<close>

theorem spiral_accesses_in_bounds:
  "(\<exists>r. find_split self t = Inr r) \<and>
   (\<forall>pos. 0 \<le> pos \<and> len t div 2 - pos > len t div 3 \<longrightarrow>
      0 \<le> len t div 2 - pos \<and> len t div 2 - pos < len t \<and>
      0 \<le> len t div 2 + pos \<and> len t div 2 + pos < len t \<and>
      getitem t (len t div 2 - pos) = Inr (t ! nat (len t div 2 - pos)) \<and>
      getitem t (len t div 2 + pos) = Inr (t ! nat (len t div 2 + pos)))"
proof (intro conjI allI impI)
  show "\<exists>r. find_split self t = Inr r"
    using find_split_result by blast
next
  fix pos :: int
  assume a: "0 \<le> pos \<and> len t div 2 - pos > len t div 3"
  have n: "0 \<le> len t" by (simp add: len_def)
  from a n show lo1: "0 \<le> len t div 2 - pos" by linarith
  from a n show lo2: "len t div 2 - pos < len t" by linarith
  from a n show hi1: "0 \<le> len t div 2 + pos" by linarith
  from a n show hi2: "len t div 2 + pos < len t" by linarith
  show "getitem t (len t div 2 - pos) = Inr (t ! nat (len t div 2 - pos))"
    using lo1 lo2 by (rule getitem_in_range)
  show "getitem t (len t div 2 + pos) = Inr (t ! nat (len t div 2 + pos))"
    using hi1 hi2 by (rule getitem_in_range)
qed

theorem spiral_accesses_in_bounds_witness:
  "find_split (init 3) (str ''Hello. world'') = Inr 5 \<and>
   getitem (str ''Hello. world'') (len (str ''Hello. world'') div 2 - 1) = Inr 0x2E \<and>
   getitem (str ''Hello. world'') (len (str ''Hello. world'') div 2 + 1) = Inr 0x77"
  using spiral_accesses_in_bounds [of "init 3" "str ''Hello. world''"]
  by (simp add: find_split_def init_def str_def len_def getitem_def spiral.simps
      STANDARD_SENTENCE_ENDINGS_def CJK_SENTENCE_ENDINGS_def)

text \<open>
  C1. Every fragment yielded by \<open>split_page_by_max_tokens\<close> has a token count, by the
  external token counter, of at most \<open>max_tokens_per_section\<close> (and carries the page number
  it was called with, and the run raises nothing). The second part shows that runs exist:
  when every text of at most two characters is within the budget, the generator finishes.
\<close>

theorem split_page_by_max_tokens_within_budget:
  "(\<forall>frags err. split_page_by_max_tokens self bpe pn t = Some (frags, err) \<longrightarrow>
      err = None \<and>
      (\<forall>f \<in> set frags. int (bpe (sp_text f)) \<le> max_tokens_per_section self \<and>
                         sp_page_num f = pn)) \<and>
   ((\<forall>s. length s \<le> 2 \<longrightarrow> int (bpe s) \<le> max_tokens_per_section self) \<longrightarrow>
      (\<exists>frags. split_page_by_max_tokens self bpe pn t = Some (frags, None)))"
proof (rule conjI)
  show "\<forall>frags err. split_page_by_max_tokens self bpe pn t = Some (frags, err) \<longrightarrow>
      err = None \<and>
      (\<forall>f \<in> set frags. int (bpe (sp_text f)) \<le> max_tokens_per_section self \<and>
                         sp_page_num f = pn)"
  proof (intro allI impI)
    fix frags err
    assume run: "split_page_by_max_tokens self bpe pn t = Some (frags, err)"
    from split_run[OF run] show "err = None \<and>
      (\<forall>f \<in> set frags. int (bpe (sp_text f)) \<le> max_tokens_per_section self \<and> sp_page_num f = pn)"
      by simp
  qed
next
  show "(\<forall>s. length s \<le> 2 \<longrightarrow> int (bpe s) \<le> max_tokens_per_section self) \<longrightarrow>
      (\<exists>frags. split_page_by_max_tokens self bpe pn t = Some (frags, None))"
    using split_total by blast
qed

theorem split_page_by_max_tokens_within_budget_witness:
  "split_page_by_max_tokens (init 3) length (Num 0) (str ''Hello. world'') =
     Some ([SplitPage (Num 0) (str ''Hel''), SplitPage (Num 0) (str ''lo.''),
            SplitPage (Num 0) (str '' wo''), SplitPage (Num 0) (str ''rld'')], None) \<and>
   list_all (\<lambda>f. int (length (sp_text f)) \<le> max_tokens_per_section (init 3))
     [SplitPage (Num 0) (str ''Hel''), SplitPage (Num 0) (str ''lo.''),
      SplitPage (Num 0) (str '' wo''), SplitPage (Num 0) (str ''rld'')]"
proof -
  have run: "split_page_by_max_tokens (init 3) length (Num 0) (str ''Hello. world'') =
     Some ([SplitPage (Num 0) (str ''Hel''), SplitPage (Num 0) (str ''lo.''),
            SplitPage (Num 0) (str '' wo''), SplitPage (Num 0) (str ''rld'')], None)"
    by code_simp
  have small: "\<forall>s :: pystr. length s \<le> 2 \<longrightarrow> int (length s) \<le> max_tokens_per_section (init 3)"
    by (simp add: init_def)
  from split_page_by_max_tokens_within_budget
    [of "init 3" length "Num 0" "str ''Hello. world''"] run small
  have "\<forall>f \<in> set [SplitPage (Num 0) (str ''Hel''), SplitPage (Num 0) (str ''lo.''),
      SplitPage (Num 0) (str '' wo''), SplitPage (Num 0) (str ''rld'')].
      int (length (sp_text f)) \<le> max_tokens_per_section (init 3)"
    by blast
  with run show ?thesis by (simp only: list_all_iff)
qed

text \<open>
  C2. The claim is that \<open>split_page_by_max_tokens\<close> ends on every input, single
  characters over the budget included. The code does not: for a one-character text over
  the budget the blind split gives \<open>text[:0]\<close> and \<open>text[0:]\<close>, and for a two-character
  text that ends in a sentence ending the split gives \<open>text[:2]\<close> and \<open>text[2:]\<close>; one
  half is the text itself, and the recursion never reaches the base case.
\<close>

theorem split_page_by_max_tokens_no_progress:
  "split_page_by_max_tokens (init 1) (\<lambda>s. 2 * length s) (Num 0) [0x1F600] = None \<and>
   split_page_by_max_tokens (init 1) length (Num 0) (str ''a.'') = None"
proof
  have "stuck (init 1) (\<lambda>s. 2 * length s) [0x1F600]"
    by (simp add: stuck_def init_def)
  then show "split_page_by_max_tokens (init 1) (\<lambda>s. 2 * length s) (Num 0) [0x1F600] = None"
    by (rule split_diverges)
  have "stuck (init 1) length (str ''a.'')"
    by (simp add: stuck_def init_def str_def STANDARD_SENTENCE_ENDINGS_def)
  then show "split_page_by_max_tokens (init 1) length (Num 0) (str ''a.'') = None"
    by (rule split_diverges)
qed

section \<open>Facts about find_page\<close>

lemma find_page_in_range:
  "map offset pages = map Some offs \<Longrightarrow> sorted offs \<Longrightarrow> Suc i < length pages \<Longrightarrow>
   offs ! i \<le> off \<Longrightarrow> off < offs ! Suc i \<Longrightarrow>
   find_page pages off = Inr (page_num (pages ! i))"
proof (induction pages off arbitrary: offs i rule: find_page.induct)
  case (1 off)
  then show ?case by simp
next
  case (2 p off)
  then show ?case by simp
next
  case (3 p q ps off)
  from "3.prems"(1) obtain a b rest where offs: "offs = a # b # rest"
    and p: "offset p = Some a" and q: "offset q = Some b"
    and tl: "map offset (q # ps) = map Some (b # rest)"
    by (auto simp: map_eq_Cons_conv)
  from "3.prems"(2) offs have ab: "a \<le> b" and srt: "sorted (b # rest)" by auto
  show ?case
  proof (cases i)
    case 0
    with "3.prems" offs p q show ?thesis by simp
  next
    case (Suc j)
    from "3.prems"(1) have len: "length offs = length (p # q # ps)"
      by (metis length_map)
    have "b \<le> (b # rest) ! j"
      using srt Suc "3.prems"(3) len offs
      by (cases j) (auto simp: sorted_iff_nth_mono)
    with "3.prems"(4) Suc offs have nb: "\<not> off < b" by simp
    have rec: "find_page (p # q # ps) off = find_page (q # ps) off"
      using p q nb by simp
    have "find_page (q # ps) off = Inr (page_num ((q # ps) ! j))"
    proof (cases "off \<ge> a")
      case True
      show ?thesis
        using "3.IH"(1)[OF p True q nb tl srt, of j] "3.prems" Suc offs by simp
    next
      case False
      show ?thesis
        using "3.IH"(2)[OF p False tl srt, of j] "3.prems" Suc offs by simp
    qed
    with rec Suc show ?thesis by simp
  qed
qed

lemma find_page_past_last:
  "map offset pages = map Some offs \<Longrightarrow> sorted offs \<Longrightarrow> pages \<noteq> [] \<Longrightarrow>
   last offs \<le> off \<Longrightarrow> find_page pages off = Inr (page_num (last pages))"
proof (induction pages off arbitrary: offs rule: find_page.induct)
  case (1 off)
  then show ?case by simp
next
  case (2 p off)
  then show ?case by simp
next
  case (3 p q ps off)
  from "3.prems"(1) obtain a b rest where offs: "offs = a # b # rest"
    and p: "offset p = Some a" and q: "offset q = Some b"
    and tl: "map offset (q # ps) = map Some (b # rest)"
    by (auto simp: map_eq_Cons_conv)
  from "3.prems"(2) offs have srt: "sorted (b # rest)" by auto
  then have "b \<le> last (b # rest)"
    by (cases rest) (auto simp del: sorted_wrt.simps simp: sorted_wrt.simps(2))
  with "3.prems"(4) offs have nb: "\<not> off < b" by simp
  have rec: "find_page (p # q # ps) off = find_page (q # ps) off"
    using p q nb by simp
  have "find_page (q # ps) off = Inr (page_num (last (q # ps)))"
  proof (cases "off \<ge> a")
    case True
    show ?thesis
      using "3.IH"(1)[OF p True q nb tl srt] "3.prems" offs by simp
  next
    case False
    show ?thesis
      using "3.IH"(2)[OF p False tl srt] "3.prems" offs by simp
  qed
  with rec show ?case by simp
qed


text \<open>
  C5, as the code has it. For pages whose offsets are present and non-decreasing,
  \<open>find_page(offset)\<close> returns the page number of the page whose half-open range
  \<open>[offset_i, offset_{i+1})\<close> contains the offset, returns the last page's number for an
  offset at or past the last page's start, and attributes an offset equal to a page's start
  offset to that page when that page's range is not empty (its start offset is below the
  next page's, or it is the last page).
\<close>

theorem find_page_attribution:
  assumes "map offset pages = map Some offs" and "sorted offs"
  shows "(\<forall>i off. Suc i < length pages \<and> offs ! i \<le> off \<and> off < offs ! Suc i \<longrightarrow>
            find_page pages off = Inr (page_num (pages ! i))) \<and>
         (\<forall>off. pages \<noteq> [] \<and> last offs \<le> off \<longrightarrow>
            find_page pages off = Inr (page_num (last pages))) \<and>
         (\<forall>i. i < length pages \<and> (Suc i < length pages \<longrightarrow> offs ! i < offs ! Suc i) \<longrightarrow>
            find_page pages (offs ! i) = Inr (page_num (pages ! i)))"
proof (intro conjI)
  show r1: "\<forall>i off. Suc i < length pages \<and> offs ! i \<le> off \<and> off < offs ! Suc i \<longrightarrow>
            find_page pages off = Inr (page_num (pages ! i))"
    using find_page_in_range[OF assms] by blast
  show r2: "\<forall>off. pages \<noteq> [] \<and> last offs \<le> off \<longrightarrow>
            find_page pages off = Inr (page_num (last pages))"
    using find_page_past_last[OF assms] by blast
  show "\<forall>i. i < length pages \<and> (Suc i < length pages \<longrightarrow> offs ! i < offs ! Suc i) \<longrightarrow>
            find_page pages (offs ! i) = Inr (page_num (pages ! i))"
  proof (intro allI impI)
    fix i
    assume a: "i < length pages \<and> (Suc i < length pages \<longrightarrow> offs ! i < offs ! Suc i)"
    from assms(1) have len: "length offs = length pages" by (metis length_map)
    show "find_page pages (offs ! i) = Inr (page_num (pages ! i))"
    proof (cases "Suc i < length pages")
      case True
      with a r1 show ?thesis by simp
    next
      case False
      with a have i: "i = length pages - 1" and ne: "pages \<noteq> []" by auto
      from ne len have ne': "offs \<noteq> []" by auto
      have "offs ! i = last offs" using i len ne' by (simp add: last_conv_nth)
      moreover have "pages ! i = last pages" using i ne by (simp add: last_conv_nth)
      ultimately have "offs ! i = last offs" "pages ! i = last pages" by blast+
      with r2 ne show ?thesis by simp
    qed
  qed
qed

theorem find_page_attribution_witness:
  "map offset two_pages = map Some [0, 13] \<and> sorted [0, 13 :: int] \<and>
   find_page two_pages 5 = Inr (Num 0) \<and> find_page two_pages 13 = Inr (Num 1) \<and>
   find_page two_pages 40 = Inr (Num 1) \<and> find_page two_pages 0 = Inr (Num 0)"
  using find_page_attribution [of two_pages "[0, 13]"]
  by (simp add: two_pages_def)

text \<open>
  C5 as stated fails where two pages start at the same offset: the first page below is
  blank, so both pages start at offset 0, and offset 0 goes to the second page, not to
  the first.
\<close>

theorem find_page_tie_counterexample:
  "map offset blank_first_page = map Some [0, 0] \<and> sorted [0, 0 :: int] \<and>
   [0, 0 :: int] ! 0 = 0 \<and>
   find_page blank_first_page 0 = Inr (Num 1) \<and>
   find_page blank_first_page 0 \<noteq> Inr (page_num (blank_first_page ! 0))"
  by (simp add: blank_first_page_def)

section \<open>Facts about SentenceTextSplitter.split_pages\<close>

lemma split_page_within_budget:
  "int (bpe t) \<le> max_tokens_per_section self \<Longrightarrow>
   split_page_by_max_tokens self bpe pn t = Some ([SplitPage pn t], None)"
  by (subst split_page_by_max_tokens.simps) simp

lemma split_pages_short:
  assumes "len (strip (concat (map page_text pages))) \<noteq> 0"
    and "len (concat (map page_text pages)) \<le> max_section_length self"
    and "int (bpe (concat (map page_text pages))) \<le> max_tokens_per_section self"
    and "find_page pages 0 = Inr pn"
  shows "split_pages self bpe pages = Some ([SplitPage pn (concat (map page_text pages))], None)"
  using assms by (simp add: split_pages_def Let_def split_page_within_budget)

lemma find_page_containing:
  assumes offs: "map offset pages = map Some offs" and srt: "sorted offs"
    and i: "i < length pages" and lo: "offs ! i \<le> off"
    and hi: "Suc i < length pages \<longrightarrow> off < offs ! Suc i"
  shows "find_page pages off = Inr (page_num (pages ! i))"
proof (cases "Suc i < length pages")
  case True
  with hi lo show ?thesis using find_page_in_range[OF offs srt] by blast
next
  case False
  with i have ieq: "i = length pages - 1" and ne: "pages \<noteq> []" by auto
  from offs have len: "length offs = length pages" by (metis length_map)
  from ne len have ne': "offs \<noteq> []" by auto
  have "offs ! i = last offs" using ieq len ne' by (simp add: last_conv_nth)
  moreover have "pages ! i = last pages" using ieq ne by (simp add: last_conv_nth)
  ultimately show ?thesis using find_page_past_last[OF offs srt ne, of off] lo by simp
qed

text \<open>
  C6. When the concatenated text is not blank after stripping, is no longer than
  \<open>max_section_length\<close> and has at most \<open>max_tokens_per_section\<close> tokens,
  \<open>split_pages\<close> yields exactly one fragment: the whole buffer, with the page number of
  the page whose offset range contains offset 0. The witness is the scenario of the two
  pages "Hello world. " and "Bye now.".
\<close>

theorem short_document_single_fragment:
  assumes "len (strip (concat (map page_text pages))) \<noteq> 0"
    and "len (concat (map page_text pages)) \<le> max_section_length self"
    and "int (bpe (concat (map page_text pages))) \<le> max_tokens_per_section self"
    and "map offset pages = map Some offs" and "sorted offs"
    and "i < length pages" and "offs ! i \<le> 0"
    and "Suc i < length pages \<longrightarrow> 0 < offs ! Suc i"
  shows "split_pages self bpe pages =
           Some ([SplitPage (page_num (pages ! i)) (concat (map page_text pages))], None)"
proof -
  have "find_page pages 0 = Inr (page_num (pages ! i))"
    using assms(4-8) by (rule find_page_containing)
  with assms(1-3) show ?thesis by (rule split_pages_short)
qed

theorem short_document_single_fragment_witness:
  "len (strip (concat (map page_text two_pages))) \<noteq> 0 \<and>
   len (concat (map page_text two_pages)) \<le> max_section_length (init 500) \<and>
   int (length (concat (map page_text two_pages))) \<le> max_tokens_per_section (init 500) \<and>
   map offset two_pages = map Some [0, 13] \<and> sorted [0, 13 :: int] \<and>
   split_pages (init 500) length two_pages =
     Some ([SplitPage (Num 0) (str ''Hello world. Bye now.'')], None)"
  using short_document_single_fragment [of two_pages "init 500" length "[0, 13]" 0]
  by (simp add: two_pages_def init_def str_def len_def strip_def isspace_def
      DEFAULT_SECTION_LENGTH_def)

section \<open>Facts about range and fixed-size slices\<close>

lemma div_plus_self: "(s::int) \<noteq> 0 \<Longrightarrow> (x + s) div s = x div s + 1"
  by simp

lemma div_times_plus: "(s::int) \<noteq> 0 \<Longrightarrow> (r + q * s) div s = r div s + q"
  by simp

lemma range_count_empty: "0 < step \<Longrightarrow> \<not> i < n \<Longrightarrow> (n - i - 1) div step + 1 \<le> (0::int)"
proof -
  assume s: "0 < step" and "\<not> i < n"
  then have "n - i - 1 < 0" by simp
  with s have "(n - i - 1) div step < 0" by (simp add: div_neg_pos_less0)
  then show ?thesis by simp
qed

lemma range_count_step: "0 < step \<Longrightarrow> (n - i - 1) div step = (n - (i + step) - 1) div step + (1::int)"
proof -
  assume s: "0 < step"
  have e: "n - i - 1 = (n - (i + step) - 1) + step" by simp
  show ?thesis
    by (subst e) (rule div_plus_self, use s in simp)
qed

lemma range_count_nonneg: "0 < step \<Longrightarrow> i < n \<Longrightarrow> 0 \<le> (n - (i + step) - 1) div step + (1::int)"
proof -
  assume s: "0 < step" and "i < n"
  then have "0 \<le> n - i - 1" by simp
  with s have "0 \<le> (n - i - 1) div step" by (simp add: pos_imp_zdiv_nonneg_iff)
  with range_count_step[OF s, of n i] show ?thesis by simp
qed

lemma ceil_div_pos:
  "0 < m \<Longrightarrow> (n - 1) div m + 1 = \<lceil>real_of_int n / real_of_int m\<rceil>"
proof -
  assume m: "0 < m"
  define q where "q = n div m"
  define r where "r = n mod m"
  have n: "n = r + q * m" by (simp add: q_def r_def)
  have r: "0 \<le> r" "r < m" using m by (simp_all add: r_def)
  have c: "\<lceil>real_of_int n / real_of_int m\<rceil> = - (- n div m)" by (rule ceiling_divide_eq_div)
  show ?thesis
  proof (cases "r = 0")
    case True
    have "n - 1 = (m - 1) + (q - 1) * m" using n True by (simp add: algebra_simps)
    then have "(n - 1) div m = ((m - 1) + (q - 1) * m) div m" by (rule arg_cong)
    also have "\<dots> = (m - 1) div m + (q - 1)" by (rule div_times_plus) (use m in simp)
    also have "(m - 1) div m = 0" using m by (simp add: div_pos_pos_trivial)
    finally have l: "(n - 1) div m + 1 = q" by simp
    have "- n = 0 + (- q) * m" using n True by simp
    then have "- n div m = (0 + (- q) * m) div m" by (rule arg_cong)
    also have "\<dots> = 0 div m + (- q)" by (rule div_times_plus) (use m in simp)
    finally have "- (- n div m) = q" by simp
    with l c show ?thesis by simp
  next
    case False
    with r have rp: "0 < r" by simp
    have "n - 1 = (r - 1) + q * m" using n by simp
    then have "(n - 1) div m = ((r - 1) + q * m) div m" by (rule arg_cong)
    also have "\<dots> = (r - 1) div m + q" by (rule div_times_plus) (use m in simp)
    also have "(r - 1) div m = 0" using r rp by (simp add: div_pos_pos_trivial)
    finally have l: "(n - 1) div m + 1 = q + 1" by simp
    have "- n = (m - r) + (- q - 1) * m" using n by (simp add: algebra_simps)
    then have "- n div m = ((m - r) + (- q - 1) * m) div m" by (rule arg_cong)
    also have "\<dots> = (m - r) div m + (- q - 1)" by (rule div_times_plus) (use m in simp)
    also have "(m - r) div m = 0" using r rp by (simp add: div_pos_pos_trivial)
    finally have "- (- n div m) = q + 1" by simp
    with l c show ?thesis by simp
  qed
qed


lemma py_range_pos:
  "0 < step \<Longrightarrow>
   py_range i n step = map (\<lambda>k. i + int k * step) [0..<nat ((n - i - 1) div step + 1)]"
proof (induction i n step rule: py_range.induct)
  case (1 i n step)
  note s = \<open>0 < step\<close>
  show ?case
  proof (cases "i < n")
    case False
    from range_count_empty[OF s False] have "nat ((n - i - 1) div step + 1) = 0" by simp
    moreover have "py_range i n step = []"
      using False s by (subst py_range.simps) simp
    ultimately show ?thesis by simp
  next
    case True
    define m where "m = nat ((n - (i + step) - 1) div step + 1)"
    have cnt: "nat ((n - i - 1) div step + 1) = Suc m"
      using range_count_step[OF s, of n i] range_count_nonneg[OF s True] by (simp add: m_def)
    have IH: "py_range (i + step) n step = map (\<lambda>k. i + step + int k * step) [0..<m]"
      using "1.IH" True s by (simp add: m_def)
    have "py_range i n step = i # py_range (i + step) n step"
      using True s by (subst py_range.simps) simp
    also have "\<dots> = i # map (\<lambda>k. i + step + int k * step) [0..<m]"
      using IH by simp
    also have "\<dots> = map (\<lambda>k. i + int k * step) [0..<Suc m]"
      by (simp add: upt_conv_Cons map_Suc_upt[symmetric] algebra_simps del: upt_Suc)
    finally show ?thesis using cnt by simp
  qed
qed

lemma slice_chunk:
  "0 \<le> i \<Longrightarrow> 0 < m \<Longrightarrow> slice xs i (i + m) = take (nat m) (drop (nat i) xs)"
  by (auto simp: slice_def clamp_index_def len_def Let_def min_def)

lemma concat_chunks:
  "0 < m \<Longrightarrow> length xs \<le> N * m \<Longrightarrow>
   concat (map (\<lambda>k. take m (drop (k * m) xs)) [0..<N]) = xs"
proof (induction N arbitrary: xs)
  case 0
  then show ?case by simp
next
  case (Suc N)
  have "length (drop m xs) \<le> N * m" using Suc.prems by simp
  from Suc.IH[OF Suc.prems(1) this]
  have IH: "concat (map (\<lambda>k. take m (drop (k * m) (drop m xs))) [0..<N]) = drop m xs" .
  have "concat (map (\<lambda>k. take m (drop (k * m) xs)) [0..<Suc N]) =
        take m xs @ concat (map (\<lambda>k. take m (drop (Suc k * m) xs)) [0..<N])"
    by (simp add: upt_conv_Cons map_Suc_upt[symmetric] o_def del: upt_Suc)
  also have "\<dots> = take m xs @ drop m xs"
    using IH by (simp add: add.commute)
  finally show ?case by simp
qed

lemma count_bounds:
  fixes n m :: int
  assumes m: "0 < m"
  shows "(n - 1) div m * m \<le> n - 1" and "n \<le> ((n - 1) div m + 1) * m"
proof -
  have e: "(n - 1) div m * m + (n - 1) mod m = n - 1" by simp
  have r: "0 \<le> (n - 1) mod m" "(n - 1) mod m < m" using m by simp_all
  from e r show "(n - 1) div m * m \<le> n - 1" by linarith
  have "((n - 1) div m + 1) * m = (n - 1) div m * m + m" by (simp add: algebra_simps)
  with e r show "n \<le> ((n - 1) div m + 1) * m" by linarith
qed

text \<open>The slices cut by a loop over range(0, len(xs), m), for a positive m.\<close>

lemma range_slices:
  fixes xs :: "'a list" and m :: int and f :: "int \<Rightarrow> 'a list \<Rightarrow> 'b"
  assumes m: "0 < m"
  defines "N \<equiv> nat ((len xs - 1) div m + 1)"
  shows "map (\<lambda>i. f i (slice xs i (i + m))) (py_range 0 (len xs) m) =
         map (\<lambda>k. f (int k * m) (take (nat m) (drop (k * nat m) xs))) [0..<N]"
    and "int N = \<lceil>real_of_int (len xs) / real_of_int m\<rceil>"
    and "length xs \<le> N * nat m"
    and "\<And>k. k < N \<Longrightarrow> k * nat m < length xs"
    and "\<And>k. Suc k < N \<Longrightarrow> Suc k * nat m < length xs"
proof -
  have n0: "0 \<le> len xs" by (simp add: len_def)
  have q: "0 \<le> (len xs - 1) div m + 1"
  proof -
    have "(- 1) div m \<le> (len xs - 1) div m"
      using n0 m by (intro zdiv_mono1) simp_all
    moreover have "(- 1) div m = - 1" using m by (simp add: div_eq_minus1)
    ultimately have "- 1 \<le> (len xs - 1) div m" by simp
    then show ?thesis by simp
  qed
  show "int N = \<lceil>real_of_int (len xs) / real_of_int m\<rceil>"
    using ceil_div_pos[OF m, of "len xs"] q by (simp add: N_def)
  have intN: "int N = (len xs - 1) div m + 1" using q by (simp add: N_def)
  have cov: "len xs \<le> int N * m" using count_bounds(2)[OF m, of "len xs"] intN by simp
  have "int (length xs) \<le> int (N * nat m)" using cov m by (simp add: len_def)
  then show "length xs \<le> N * nat m" by (simp only: of_nat_le_iff)
  have below: "int k * m < len xs" if "k < N" for k
  proof -
    from that intN have "int k \<le> (len xs - 1) div m" by simp
    with m have "int k * m \<le> (len xs - 1) div m * m" by (simp add: mult_right_mono)
    with count_bounds(1)[OF m, of "len xs"] show ?thesis by simp
  qed
  show "k * nat m < length xs" if "k < N" for k
  proof -
    have "int (k * nat m) < int (length xs)" using below[OF that] m by (simp add: len_def)
    then show ?thesis by (simp only: of_nat_less_iff)
  qed
  then show "Suc k * nat m < length xs" if "Suc k < N" for k using that by blast
  have "py_range 0 (len xs) m = map (\<lambda>k. int k * m) [0..<N]"
    using py_range_pos[OF m, of 0 "len xs"] by (simp add: N_def)
  moreover have "slice xs (int k * m) (int k * m + m) = take (nat m) (drop (k * nat m) xs)" for k
  proof -
    have "nat (int k * m) = k * nat m" using m by (simp add: nat_mult_distrib)
    moreover have "0 \<le> int k * m" using m by simp
    ultimately show ?thesis using slice_chunk[OF _ m, of "int k * m" xs] by simp
  qed
  ultimately show "map (\<lambda>i. f i (slice xs i (i + m))) (py_range 0 (len xs) m) =
         map (\<lambda>k. f (int k * m) (take (nat m) (drop (k * nat m) xs))) [0..<N]"
    by (simp add: o_def)
qed


section \<open>Facts about SimpleTextSplitter.split_pages\<close>

lemma simple_split_pages_long:
  assumes nb: "len (strip (concat (map page_text pages))) \<noteq> 0"
    and m: "0 < max_object_length self"
    and long: "max_object_length self < len (concat (map page_text pages))"
  shows "simple_split_pages self pages =
           (map (\<lambda>k. SplitPage (Num (int k))
                        (take (nat (max_object_length self))
                           (drop (k * nat (max_object_length self))
                              (concat (map page_text pages)))))
              [0..<nat ((len (concat (map page_text pages)) - 1) div max_object_length self + 1)],
            None)"
proof -
  have "map (\<lambda>i. SplitPage (Num (i div max_object_length self))
                    (slice (concat (map page_text pages)) i (i + max_object_length self)))
          (py_range 0 (len (concat (map page_text pages))) (max_object_length self)) =
        map (\<lambda>k. SplitPage (Num (int k * max_object_length self div max_object_length self))
                    (take (nat (max_object_length self))
                       (drop (k * nat (max_object_length self)) (concat (map page_text pages)))))
          [0..<nat ((len (concat (map page_text pages)) - 1) div max_object_length self + 1)]"
    by (rule range_slices(1)[OF m,
          where f = "\<lambda>i t. SplitPage (Num (i div max_object_length self)) t"])
  moreover have "int k * max_object_length self div max_object_length self = int k" for k
    using m by simp
  ultimately show ?thesis
    using nb m long by (simp add: simple_split_pages_def Let_def)
qed

text \<open>
  C7. \<open>SimpleTextSplitter.split_pages\<close> yields nothing when the concatenated text is empty
  or only whitespace. Otherwise, when the total length exceeds \<open>max_object_length\<close> (a
  positive length), it yields exactly \<open>ceil(total_length / max_object_length)\<close> fragments;
  fragment \<open>k\<close> is the slice of \<open>max_object_length\<close> characters that starts at
  \<open>k * max_object_length\<close> and has page number \<open>k\<close>; the slices concatenate to the
  whole text, so they are consecutive and do not overlap; every slice but the last has
  length \<open>max_object_length\<close> and none is empty. In every case each fragment's text is
  at most \<open>max_object_length\<close> long.
\<close>

theorem simple_split_pages_chunks:
  "(len (strip (concat (map page_text pages))) = 0 \<longrightarrow>
      simple_split_pages self pages = ([], None)) \<and>
   (len (strip (concat (map page_text pages))) \<noteq> 0 \<and> 0 < max_object_length self \<and>
    max_object_length self < len (concat (map page_text pages)) \<longrightarrow>
      (\<exists>frags. simple_split_pages self pages = (frags, None) \<and>
         int (length frags) =
           \<lceil>real_of_int (len (concat (map page_text pages))) /
             real_of_int (max_object_length self)\<rceil> \<and>
         (\<forall>k < length frags.
            frags ! k =
              SplitPage (Num (int k))
                (take (nat (max_object_length self))
                   (drop (k * nat (max_object_length self)) (concat (map page_text pages))))) \<and>
         concat (map sp_text frags) = concat (map page_text pages) \<and>
         (\<forall>k. Suc k < length frags \<longrightarrow>
            len (sp_text (frags ! k)) = max_object_length self) \<and>
         (\<forall>k < length frags. 0 < len (sp_text (frags ! k))))) \<and>
   (\<forall>f \<in> set (fst (simple_split_pages self pages)).
      len (sp_text f) \<le> max_object_length self)"
proof (intro conjI)
  show "len (strip (concat (map page_text pages))) = 0 \<longrightarrow>
      simple_split_pages self pages = ([], None)"
    by (simp add: simple_split_pages_def)
next
  let ?t = "concat (map page_text pages)" and ?m = "max_object_length self"
  let ?N = "nat ((len ?t - 1) div ?m + 1)"
  let ?frags = "map (\<lambda>k. SplitPage (Num (int k)) (take (nat ?m) (drop (k * nat ?m) ?t))) [0..<?N]"
  show "len (strip ?t) \<noteq> 0 \<and> 0 < ?m \<and> ?m < len ?t \<longrightarrow>
      (\<exists>frags. simple_split_pages self pages = (frags, None) \<and>
         int (length frags) = \<lceil>real_of_int (len ?t) / real_of_int ?m\<rceil> \<and>
         (\<forall>k < length frags.
            frags ! k = SplitPage (Num (int k)) (take (nat ?m) (drop (k * nat ?m) ?t))) \<and>
         concat (map sp_text frags) = ?t \<and>
         (\<forall>k. Suc k < length frags \<longrightarrow> len (sp_text (frags ! k)) = ?m) \<and>
         (\<forall>k < length frags. 0 < len (sp_text (frags ! k))))"
  proof
    assume a: "len (strip ?t) \<noteq> 0 \<and> 0 < ?m \<and> ?m < len ?t"
    then have m: "0 < ?m" by simp
    have run: "simple_split_pages self pages = (?frags, None)"
      using a by (intro simple_split_pages_long) simp_all
    have cnt: "int (length ?frags) = \<lceil>real_of_int (len ?t) / real_of_int ?m\<rceil>"
      using range_slices(2)[OF m, of ?t] by simp
    have nth: "\<forall>k < length ?frags.
        ?frags ! k = SplitPage (Num (int k)) (take (nat ?m) (drop (k * nat ?m) ?t))"
      by simp
    have "concat (map sp_text ?frags) =
          concat (map (\<lambda>k. take (nat ?m) (drop (k * nat ?m) ?t)) [0..<?N])"
      by (simp add: o_def)
    also have "\<dots> = ?t"
      using m range_slices(3)[OF m, of ?t] by (intro concat_chunks) simp_all
    finally have cat: "concat (map sp_text ?frags) = ?t" .
    have full: "\<forall>k. Suc k < length ?frags \<longrightarrow> len (sp_text (?frags ! k)) = ?m"
    proof (intro allI impI)
      fix k assume k: "Suc k < length ?frags"
      then have "Suc k * nat ?m < length ?t" using range_slices(5)[OF m, of k ?t] by simp
      then have "nat ?m \<le> length ?t - k * nat ?m" by simp
      with k m show "len (sp_text (?frags ! k)) = ?m" by (simp add: len_def min_def)
    qed
    have nonempty: "\<forall>k < length ?frags. 0 < len (sp_text (?frags ! k))"
    proof (intro allI impI)
      fix k assume k: "k < length ?frags"
      then have "k * nat ?m < length ?t" using range_slices(4)[OF m, of k ?t] by simp
      with k m show "0 < len (sp_text (?frags ! k))" by (simp add: len_def)
    qed
    from run cnt nth cat full nonempty
    show "\<exists>frags. simple_split_pages self pages = (frags, None) \<and>
         int (length frags) = \<lceil>real_of_int (len ?t) / real_of_int ?m\<rceil> \<and>
         (\<forall>k < length frags.
            frags ! k = SplitPage (Num (int k)) (take (nat ?m) (drop (k * nat ?m) ?t))) \<and>
         concat (map sp_text frags) = ?t \<and>
         (\<forall>k. Suc k < length frags \<longrightarrow> len (sp_text (frags ! k)) = ?m) \<and>
         (\<forall>k < length frags. 0 < len (sp_text (frags ! k)))"
      by blast
  qed
next
  show "\<forall>f \<in> set (fst (simple_split_pages self pages)).
      len (sp_text f) \<le> max_object_length self"
  proof (cases "max_object_length self \<le> 0")
    case True
    have "0 \<le> len (concat (map page_text pages))" by (simp add: len_def)
    moreover have "py_range 0 n (max_object_length self) = []" if "0 \<le> n" for n
      using True that by (subst py_range.simps) simp
    ultimately show ?thesis
      using True by (auto simp: simple_split_pages_def Let_def strip_def len_def)
  next
    case False
    then have m: "0 < max_object_length self" by simp
    show ?thesis
    proof (cases "len (strip (concat (map page_text pages))) \<noteq> 0 \<and>
                  max_object_length self < len (concat (map page_text pages))")
      case True
      then show ?thesis
        using simple_split_pages_long[of pages self] m by (auto simp: len_def)
    next
      case False
      then show ?thesis by (auto simp: simple_split_pages_def Let_def)
    qed
  qed
qed

theorem simple_split_pages_chunks_witness:
  "len (strip (concat (map page_text two_pages))) \<noteq> 0 \<and>
   0 < max_object_length \<lparr>max_object_length = 10\<rparr> \<and>
   max_object_length \<lparr>max_object_length = 10\<rparr> < len (concat (map page_text two_pages)) \<and>
   \<lceil>real_of_int (len (concat (map page_text two_pages))) / real_of_int 10\<rceil> = 3 \<and>
   simple_split_pages \<lparr>max_object_length = 10\<rparr> two_pages =
     ([SplitPage (Num 0) (str ''Hello worl''), SplitPage (Num 1) (str ''d. Bye now''),
       SplitPage (Num 2) (str ''.'')], None)"
proof -
  have run: "simple_split_pages \<lparr>max_object_length = 10\<rparr> two_pages =
     ([SplitPage (Num 0) (str ''Hello worl''), SplitPage (Num 1) (str ''d. Bye now''),
       SplitPage (Num 2) (str ''.'')], None)"
    by code_simp
  have hyp: "len (strip (concat (map page_text two_pages))) \<noteq> 0 \<and>
   0 < max_object_length \<lparr>max_object_length = 10\<rparr> \<and>
   max_object_length \<lparr>max_object_length = 10\<rparr> < len (concat (map page_text two_pages))"
    by (simp add: two_pages_def str_def len_def strip_def isspace_def)
  have "len (concat (map page_text two_pages)) = 21"
    by (simp add: two_pages_def str_def len_def)
  then have c: "\<lceil>real_of_int (len (concat (map page_text two_pages))) / real_of_int 10\<rceil> = 3"
    by simp
  from simple_split_pages_chunks [of two_pages "\<lparr>max_object_length = 10\<rparr>"] run hyp c
  show ?thesis by blast
qed

section \<open>Facts about ExcelSplitter.split_pages\<close>

lemma sheet_fragments_as_blocks:
  fixes to_str :: "'v \<Rightarrow> pystr"
  defines "N rows \<equiv> nat ((len rows - 1) div 50 + 1)"
  shows "sheet_fragments to_str tabulate sheet_page =
     map (\<lambda>k. render_block tabulate (page_num sheet_page)
                 (snd (get_sheet_data to_str (page_text sheet_page)))
                 (take 50 (drop (k * 50) (fst (get_sheet_data to_str (page_text sheet_page))))))
       [0..<N (fst (get_sheet_data to_str (page_text sheet_page)))]"
proof -
  obtain data headers where gd: "get_sheet_data to_str (page_text sheet_page) = (data, headers)"
    by (cases "get_sheet_data to_str (page_text sheet_page)")
  have keep: "map (map (\<lambda>cell. if notna cell then cell else [])) rows = rows"
    for rows :: "pystr list list"
    by (simp add: notna_def)
  have "map (\<lambda>i. render_block tabulate (page_num sheet_page) headers (slice data i (i + 50)))
          (py_range 0 (len data) 50) =
        map (\<lambda>k. render_block tabulate (page_num sheet_page) headers
                    (take (nat 50) (drop (k * nat 50) data))) [0..<N data]"
    unfolding N_def
    by (rule range_slices(1)[of 50 "\<lambda>i t. render_block tabulate (page_num sheet_page) headers t"])
      simp
  then show ?thesis
    by (simp add: sheet_fragments_def gd Let_def keep render_block_def)
qed


lemma get_sheet_data_rows:
  "fst (get_sheet_data to_str sheet) =
     map (cell_texts to_str) (filter (\<lambda>r. \<not> blank_row to_str r) (rows_from_2 sheet))"
  by (simp add: get_sheet_data_def Let_def filter_map o_def cell_texts_def blank_row_def)

lemma block_bounds:
  fixes rows :: "'a list"
  defines "N \<equiv> nat ((len rows - 1) div 50 + 1)"
  shows "int N = \<lceil>real (length rows) / 50\<rceil>"
    and "concat (map (\<lambda>k. take 50 (drop (k * 50) rows)) [0..<N]) = rows"
    and "\<And>k. k < N \<Longrightarrow> take 50 (drop (k * 50) rows) \<noteq> []"
    and "\<And>k. Suc k < N \<Longrightarrow> length (take 50 (drop (k * 50) rows)) = 50"
proof -
  have p: "(0::int) < 50" by simp
  from range_slices(2)[OF p, of rows] show "int N = \<lceil>real (length rows) / 50\<rceil>"
    by (simp add: N_def len_def)
  from range_slices(3)[OF p, of rows] have "length rows \<le> N * 50" by (simp add: N_def)
  then show "concat (map (\<lambda>k. take 50 (drop (k * 50) rows)) [0..<N]) = rows"
    by (intro concat_chunks) simp_all
  show "take 50 (drop (k * 50) rows) \<noteq> []" if "k < N" for k
    using range_slices(4)[OF p, of k rows] that by (simp add: N_def)
  show "length (take 50 (drop (k * 50) rows)) = 50" if "Suc k < N" for k
    using range_slices(5)[OF p, of k rows] that by (simp add: N_def)
qed

text \<open>
  C8. For every sheet page, the data rows that are not blank, in order, are cut into
  consecutive blocks of at most 50 rows (every block but the last has exactly 50, none is
  empty); one fragment is yielded per block, so \<open>ceil(n / 50)\<close> fragments for \<open>n\<close>
  non-blank data rows; every fragment carries the sheet page's page number; and
  \<open>split_pages\<close> yields the fragments of the sheet pages one after the other. The witness
  is a sheet with 120 data rows, which gives 3 fragments.
\<close>

theorem sheet_fragments_blocks:
  "(\<exists>blocks.
      concat blocks =
        map (cell_texts to_str)
          (filter (\<lambda>r. \<not> blank_row to_str r) (rows_from_2 (page_text sheet_page))) \<and>
      (\<forall>b \<in> set blocks. b \<noteq> [] \<and> length b \<le> 50) \<and>
      (\<forall>k. Suc k < length blocks \<longrightarrow> length (blocks ! k) = 50) \<and>
      sheet_fragments to_str tabulate sheet_page =
        map (render_block tabulate (page_num sheet_page)
               (snd (get_sheet_data to_str (page_text sheet_page)))) blocks) \<and>
   int (length (sheet_fragments to_str tabulate sheet_page)) =
     \<lceil>real (length (filter (\<lambda>r. \<not> blank_row to_str r) (rows_from_2 (page_text sheet_page))))
        / 50\<rceil> \<and>
   (\<forall>f \<in> set (sheet_fragments to_str tabulate sheet_page).
      sp_page_num f = page_num sheet_page) \<and>
   excel_split_pages to_str tabulate pages =
     concat (map (sheet_fragments to_str tabulate) pages)"
proof -
  let ?data = "fst (get_sheet_data to_str (page_text sheet_page))"
  let ?headers = "snd (get_sheet_data to_str (page_text sheet_page))"
  let ?N = "nat ((len ?data - 1) div 50 + 1)"
  let ?blocks = "map (\<lambda>k. take 50 (drop (k * 50) ?data)) [0..<?N]"
  have frags: "sheet_fragments to_str tabulate sheet_page =
      map (render_block tabulate (page_num sheet_page) ?headers) ?blocks"
    by (simp add: sheet_fragments_as_blocks o_def)
  have data: "?data = map (cell_texts to_str)
          (filter (\<lambda>r. \<not> blank_row to_str r) (rows_from_2 (page_text sheet_page)))"
    by (rule get_sheet_data_rows)
  have cat: "concat ?blocks = ?data" by (rule block_bounds(2))
  have sizes: "\<forall>b \<in> set ?blocks. b \<noteq> [] \<and> length b \<le> 50"
    using block_bounds(3)[of _ ?data] by auto
  have full: "\<forall>k. Suc k < length ?blocks \<longrightarrow> length (?blocks ! k) = 50"
    using block_bounds(4)[of _ ?data] by simp
  have cnt: "int (length (sheet_fragments to_str tabulate sheet_page)) =
      \<lceil>real (length ?data) / 50\<rceil>"
    using block_bounds(1)[of ?data] by (simp add: frags)
  have tags: "\<forall>f \<in> set (sheet_fragments to_str tabulate sheet_page).
      sp_page_num f = page_num sheet_page"
    by (auto simp: frags render_block_def)
  have ex: "\<exists>blocks.
      concat blocks = map (cell_texts to_str)
          (filter (\<lambda>r. \<not> blank_row to_str r) (rows_from_2 (page_text sheet_page))) \<and>
      (\<forall>b \<in> set blocks. b \<noteq> [] \<and> length b \<le> 50) \<and>
      (\<forall>k. Suc k < length blocks \<longrightarrow> length (blocks ! k) = 50) \<and>
      sheet_fragments to_str tabulate sheet_page =
        map (render_block tabulate (page_num sheet_page) ?headers) blocks"
    using cat sizes full frags unfolding data[symmetric] by blast
  have cnt': "int (length (sheet_fragments to_str tabulate sheet_page)) =
     \<lceil>real (length (filter (\<lambda>r. \<not> blank_row to_str r) (rows_from_2 (page_text sheet_page))))
        / 50\<rceil>"
    using cnt by (simp add: data)
  from ex cnt' tags show ?thesis by (simp add: excel_split_pages_def)
qed

theorem sheet_fragments_blocks_witness:
  "length (filter (\<lambda>r. \<not> blank_row (\<lambda>v. v) r) (rows_from_2 (page_text sheet_120))) = 120 \<and>
   length (sheet_fragments (\<lambda>v. v) (\<lambda>rows. []) sheet_120) = 3 \<and>
   list_all (\<lambda>f. sp_page_num f = Name (str ''Sheet1''))
     (sheet_fragments (\<lambda>v. v) (\<lambda>rows. []) sheet_120)"
proof -
  have n: "filter (\<lambda>r. \<not> blank_row (\<lambda>v. v) r) (rows_from_2 (page_text sheet_120)) =
           replicate 120 [Some (str ''1''), None]"
    by (simp add: sheet_120_def blank_row_def cell_texts_def str_def strip_def isspace_def)
  have pn: "page_num sheet_120 = Name (str ''Sheet1'')" by (simp add: sheet_120_def)
  from sheet_fragments_blocks [of "\<lambda>v. v" sheet_120 "\<lambda>rows. []" "[]"] n pn
  show ?thesis by (simp add: list_all_iff)
qed

text \<open>
  C10. A sheet page whose rows after the header row are all blank yields no fragment, and
  so does a list of such pages; a row whose cells all have no value or an empty text is
  blank.
\<close>

theorem blank_sheet_no_fragment:
  "((\<forall>r \<in> set (rows_from_2 (page_text sheet_page)). blank_row to_str r) \<longrightarrow>
      sheet_fragments to_str tabulate sheet_page = []) \<and>
   ((\<forall>c \<in> set r. c = None \<or> (\<exists>v. c = Some v \<and> to_str v = [])) \<longrightarrow> blank_row to_str r) \<and>
   ((\<forall>p \<in> set pages. \<forall>r \<in> set (rows_from_2 (page_text p)). blank_row to_str r) \<longrightarrow>
      excel_split_pages to_str tabulate pages = [])"
proof (intro conjI impI)
  have none: "sheet_fragments to_str tabulate p = []"
    if "\<forall>r \<in> set (rows_from_2 (page_text p)). blank_row to_str r" for p
  proof -
    from that have "filter (\<lambda>r. \<not> blank_row to_str r) (rows_from_2 (page_text p)) = []"
      by (simp add: filter_empty_conv)
    then have "fst (get_sheet_data to_str (page_text p)) = []"
      by (simp add: get_sheet_data_rows)
    then show ?thesis by (simp add: sheet_fragments_as_blocks len_def)
  qed
  show "sheet_fragments to_str tabulate sheet_page = []"
    if "\<forall>r \<in> set (rows_from_2 (page_text sheet_page)). blank_row to_str r"
    using that by (rule none)
  show "excel_split_pages to_str tabulate pages = []"
    if "\<forall>p \<in> set pages. \<forall>r \<in> set (rows_from_2 (page_text p)). blank_row to_str r"
    using that none by (simp add: excel_split_pages_def)
  show "blank_row to_str r"
    if "\<forall>c \<in> set r. c = None \<or> (\<exists>v. c = Some v \<and> to_str v = [])"
  proof -
    from that have "\<forall>t \<in> set (cell_texts to_str r). t = []"
      by (auto simp: cell_texts_def)
    then have c: "concat (cell_texts to_str r) = []" by simp
    show ?thesis unfolding blank_row_def c by (simp add: strip_def)
  qed
qed

theorem blank_sheet_no_fragment_witness:
  "list_all (blank_row (\<lambda>v. v)) (rows_from_2 (page_text blank_sheet)) \<and>
   sheet_fragments (\<lambda>v. v) (\<lambda>rows. str ''table'') blank_sheet = [] \<and>
   excel_split_pages (\<lambda>v. v) (\<lambda>rows. str ''table'') [blank_sheet] = []"
proof -
  have b: "\<forall>r \<in> set (rows_from_2 (page_text blank_sheet)). blank_row (\<lambda>v. v) r"
    by (simp add: blank_sheet_def blank_row_def cell_texts_def str_def strip_def isspace_def)
  from blank_sheet_no_fragment
    [of blank_sheet "\<lambda>v. v" "\<lambda>rows. str ''table''" "[]" "[blank_sheet]"] b
  show ?thesis by (simp add: list_all_iff)
qed

section \<open>Facts about the windows of SentenceTextSplitter.split_pages\<close>

lemma forward_search_bounds:
  "forward_search self t start e lw = Inr (e', lw') \<Longrightarrow>
   e \<le> e' \<and> (e' \<le> len t \<or> e' = e) \<and> (lw' = lw \<or> (e \<le> lw' \<and> lw' < e'))"
proof (induction self t start e lw rule: forward_search.induct)
  case (1 self t start e lw)
  show ?case
  proof (cases "e < len t \<and> e - start - max_section_length self < sentence_search_limit self")
    case False
    with "1.prems" show ?thesis by (simp add: forward_search.simps)
  next
    case True
    show ?thesis
    proof (cases "getitem t e")
      case (Inl err)
      with True "1.prems" show ?thesis by (simp add: forward_search.simps)
    next
      case (Inr c)
      show ?thesis
      proof (cases "c \<in> set (sentence_endings self)")
        case isend: True
        with True Inr "1.prems" show ?thesis by (simp add: forward_search.simps)
      next
        case notend: False
        from True Inr notend "1.prems"
        have rec: "forward_search self t start (e + 1)
                     (if c \<in> set (word_breaks self) then e else lw) = Inr (e', lw')"
          by (simp add: forward_search.simps)
        from "1.IH"[OF True Inr notend rec]
        have "e + 1 \<le> e'" "e' \<le> len t \<or> e' = e + 1"
          "lw' = (if c \<in> set (word_breaks self) then e else lw) \<or> (e + 1 \<le> lw' \<and> lw' < e')"
          by blast+
        with True show ?thesis by (auto split: if_splits)
      qed
    qed
  qed
qed

lemma find_end_bounds:
  assumes "find_end self t start = Inr r"
  shows "(len t < start + max_section_length self \<and> r = len t) \<or>
         (start + max_section_length self \<le> r \<and> r \<le> len t \<and>
          (r < len t \<longrightarrow> start + max_section_length self < r))"
proof (cases "start + max_section_length self > len t")
  case True
  with assms show ?thesis by (simp add: find_end_def Let_def)
next
  case False
  let ?e = "start + max_section_length self"
  from assms False obtain e' lw' where fs: "forward_search self t start ?e (- 1) = Inr (e', lw')"
    by (cases "forward_search self t start ?e (- 1)") (auto simp: find_end_def Let_def)
  from forward_search_bounds[OF fs] False
  have b: "?e \<le> e'" "e' \<le> len t" "lw' = - 1 \<or> (?e \<le> lw' \<and> lw' < e')" by auto
  show ?thesis
  proof (cases "e' < len t")
    case nolt: False
    with assms False fs b show ?thesis by (simp add: find_end_def Let_def)
  next
    case lt: True
    with assms False fs obtain c where c: "getitem t e' = Inr c"
      by (cases "getitem t e'") (auto simp: find_end_def Let_def)
    define e2 where "e2 = (if c \<notin> set (sentence_endings self) \<and> lw' > 0 then lw' else e')"
    from assms False fs lt c have r: "r = (if e2 < len t then e2 + 1 else e2)"
      by (auto simp: find_end_def Let_def e2_def split: if_splits)
    from b have "?e \<le> e2" "e2 \<le> e'" by (auto simp: e2_def)
    with r lt False show ?thesis by auto
  qed
qed

lemma backward_search_bounds:
  "backward_search self t s e lw = Inr (s', lw') \<Longrightarrow>
   s' \<le> s \<and> (lw' = lw \<or> (s' < lw' \<and> lw' \<le> s))"
proof (induction self t s e lw rule: backward_search.induct)
  case (1 self t s e lw)
  show ?case
  proof (cases "s > 0 \<and> s > e - max_section_length self - 2 * sentence_search_limit self")
    case False
    with "1.prems" show ?thesis by (simp add: backward_search.simps)
  next
    case True
    show ?thesis
    proof (cases "getitem t s")
      case (Inl err)
      with True "1.prems" show ?thesis by (simp add: backward_search.simps)
    next
      case (Inr c)
      show ?thesis
      proof (cases "c \<in> set (sentence_endings self)")
        case isend: True
        with True Inr "1.prems" show ?thesis by (simp add: backward_search.simps)
      next
        case notend: False
        from True Inr notend "1.prems"
        have rec: "backward_search self t (s - 1) e
                     (if c \<in> set (word_breaks self) then s else lw) = Inr (s', lw')"
          by (simp add: backward_search.simps)
        from "1.IH"[OF True Inr notend rec]
        have "s' \<le> s - 1"
          "lw' = (if c \<in> set (word_breaks self) then s else lw) \<or> (s' < lw' \<and> lw' \<le> s - 1)"
          by blast+
        then show ?thesis by (auto split: if_splits)
      qed
    qed
  qed
qed

lemma find_start_bound:
  assumes "find_start self t s e = Inr r"
  shows "r \<le> s + 1"
proof -
  from assms obtain s' lw' where bs: "backward_search self t s e (- 1) = Inr (s', lw')"
    by (cases "backward_search self t s e (- 1)") (auto simp: find_start_def)
  from assms bs obtain c where c: "getitem t s' = Inr c"
    by (cases "getitem t s'") (auto simp: find_start_def)
  define s2 where "s2 = (if c \<notin> set (sentence_endings self) \<and> lw' > 0 then lw' else s')"
  from assms bs c have r: "r = (if s2 > 0 then s2 + 1 else s2)"
    by (auto simp: find_start_def Let_def s2_def split: if_splits)
  from backward_search_bounds[OF bs] have "s2 \<le> s" by (auto simp: s2_def)
  with r show ?thesis by auto
qed

text \<open>\<open>rfind\<close> returns the last occurrence, or \<open>-1\<close> when there is none.\<close>

lemma occurs_at_Cons_Suc: "occurs_at (x # xs) sub (Suc k) = occurs_at xs sub k"
  by (simp add: occurs_at_def)

lemma occurs_at_in_range: "sub \<noteq> [] \<Longrightarrow> occurs_at s sub j \<Longrightarrow> j < length s"
  by (cases "j < length s") (auto simp: occurs_at_def)

lemma rfind_scan_last:
  assumes "sub \<noteq> []"
  shows "(rfind_scan sub xs i best = best \<and> (\<forall>k. \<not> occurs_at xs sub k)) \<or>
         (\<exists>j < length xs. rfind_scan sub xs i best = i + int j \<and> occurs_at xs sub j \<and>
                           (\<forall>k > j. \<not> occurs_at xs sub k))"
proof (induction xs arbitrary: i best)
  case Nil
  with assms show ?case by (auto simp: occurs_at_def)
next
  case (Cons x xs)
  let ?best = "if take (length sub) (x # xs) = sub then i else best"
  have step: "rfind_scan sub (x # xs) i best = rfind_scan sub xs (i + 1) ?best" by simp
  have o0: "occurs_at (x # xs) sub 0 \<longleftrightarrow> take (length sub) (x # xs) = sub"
    by (simp add: occurs_at_def)
  from Cons.IH[of "i + 1" ?best] consider
    (none) "rfind_scan sub xs (i + 1) ?best = ?best" "\<forall>k. \<not> occurs_at xs sub k"
    | (some) j where "j < length xs" "rfind_scan sub xs (i + 1) ?best = i + 1 + int j"
        "occurs_at xs sub j" "\<forall>k > j. \<not> occurs_at xs sub k"
    by blast
  then show ?case
  proof cases
    case none
    have later: "\<not> occurs_at (x # xs) sub k" if "0 < k" for k
      using that none(2) by (cases k) (simp_all add: occurs_at_Cons_Suc)
    show ?thesis
    proof (cases "take (length sub) (x # xs) = sub")
      case True
      with none step o0 later show ?thesis by (intro disjI2 exI[of _ 0]) simp
    next
      case False
      have "\<not> occurs_at (x # xs) sub k" for k
        using later[of k] False o0 by (cases "k = 0") simp_all
      with none step False show ?thesis by simp
    qed
  next
    case some
    have "\<not> occurs_at (x # xs) sub k" if "Suc j < k" for k
      using that some(4) by (cases k) (simp_all add: occurs_at_Cons_Suc)
    with some step show ?thesis
      by (intro disjI2 exI[of _ "Suc j"]) (simp add: occurs_at_Cons_Suc)
  qed
qed

lemma rfind_last:
  assumes "sub \<noteq> []"
  shows "(rfind s sub = - 1 \<and> (\<forall>k. \<not> occurs_at s sub k)) \<or>
         (0 \<le> rfind s sub \<and> rfind s sub < len s \<and> occurs_at s sub (nat (rfind s sub)) \<and>
          (\<forall>k > nat (rfind s sub). \<not> occurs_at s sub k))"
  using rfind_scan_last[OF assms, of s 0 "- 1"] by (auto simp: rfind_def len_def)

lemma rfind_absent:
  assumes "c \<notin> set s"
  shows "rfind s (c # rest) = - 1"
proof -
  have "\<not> occurs_at s (c # rest) k" for k
  proof
    assume o: "occurs_at s (c # rest) k"
    then have "k < length s" by (intro occurs_at_in_range[of "c # rest"]) simp_all
    moreover from o have "hd (drop k s) = c"
      by (cases "drop k s") (auto simp: occurs_at_def)
    ultimately have "c \<in> set s" by (metis hd_drop_conv_nth nth_mem)
    with assms show False by simp
  qed
  with rfind_last[of "c # rest" s] show ?thesis by auto
qed

lemma set_slice: "set (slice xs i j) \<subseteq> set xs"
  unfolding slice_def Let_def by (meson set_take_subset set_drop_subset subset_trans)

lemma no_figure_tag:
  assumes "0x3C \<notin> set t" and "0 \<le> sentence_search_limit self"
  shows "\<not> unclosed_figure self (slice t i j)"
proof -
  from assms(1) set_slice[of t i j] have "0x3C \<notin> set (slice t i j)" by blast
  then have "rfind (slice t i j) (str ''<figure'') = - 1"
    by (simp add: str_def rfind_absent)
  with assms(2) show ?thesis by (simp add: unclosed_figure_def Let_def)
qed

lemma next_start_plain:
  "\<not> unclosed_figure self section_text \<Longrightarrow>
   next_start self pages section_text s e = Inr (e - section_overlap self)"
  by (auto simp: next_start_def unclosed_figure_def Let_def)

lemma init_fields:
  "max_section_length (init m) = 1000"
  "sentence_search_limit (init m) = 100"
  "max_tokens_per_section (init m) = m"
  "section_overlap (init m) = 100"
  by (simp_all add: init_def DEFAULT_SECTION_LENGTH_def DEFAULT_OVERLAP_PERCENT_def)

lemma init_chars:
  "0x2E \<in> set (sentence_endings (init m))"
  "0x61 \<notin> set (sentence_endings (init m))"
  "0x61 \<notin> set (word_breaks (init m))"
  "0x3C \<notin> set (sentence_endings (init m))"
  "0x3C \<notin> set (word_breaks (init m))"
  by (simp_all add: init_def STANDARD_SENTENCE_ENDINGS_def CJK_SENTENCE_ENDINGS_def
      STANDARD_WORD_BREAKS_def CJK_WORD_BREAKS_def str_def)

lemma overlap_text_chars:
  "len overlap_text = 1100"
  "getitem overlap_text 0 = Inr 0x61"
  "getitem overlap_text 901 = Inr 0x2E"
  "getitem overlap_text 1000 = Inr 0x2E"
  by (simp_all add: overlap_text_def len_def getitem_def nth_append)

lemma overlap_text_windows:
  "find_end (init 500) overlap_text 0 = Inr 1001"
  "find_start (init 500) overlap_text 0 1001 = Inr 0"
  "find_end (init 500) overlap_text 901 = Inr 1100"
  "find_start (init 500) overlap_text 901 1100 = Inr 902"
  by (simp_all add: find_end_def find_start_def Let_def init_fields overlap_text_chars
      forward_search.simps backward_search.simps init_chars)

lemma overlap_text_plain: "\<not> unclosed_figure (init 500) (slice overlap_text i j)"
  by (rule no_figure_tag) (simp_all add: overlap_text_def init_fields)





























text \<open>
  C4, as the code has it. Without an unclosed figure the next start is
  \<open>end - section_overlap\<close>. With \<open>section_overlap \<le> max_section_length\<close>, as
  \<open>__init__\<close> sets them, the window of a next iteration that the loop guard admits
  starts at or before \<open>end - section_overlap + 1\<close> and ends at or after \<open>end\<close>, so the
  two character ranges share at least \<open>section_overlap - 1\<close> characters.
\<close>

theorem successor_window_overlap:
  assumes ov: "section_overlap self \<le> max_section_length self"
    and e1: "find_end self t start0 = Inr e1"
    and s1: "find_start self t start0 e1 = Inr s1"
    and plain: "\<not> unclosed_figure self (slice t s1 e1)"
    and guard: "(e1 - section_overlap self) + section_overlap self < len t"
    and e2: "find_end self t (e1 - section_overlap self) = Inr e2"
    and s2: "find_start self t (e1 - section_overlap self) e2 = Inr s2"
  shows "next_start self pages (slice t s1 e1) s1 e1 = Inr (e1 - section_overlap self) \<and>
         s2 \<le> e1 - section_overlap self + 1 \<and> e1 \<le> e2 \<and>
         section_overlap self - 1 \<le> int (card ({s1..<e1} \<inter> {s2..<e2}))"
proof -
  from guard have lt: "e1 < len t" by simp
  from find_end_bounds[OF e1] lt have a: "start0 + max_section_length self < e1" by auto
  from find_start_bound[OF s1] have b: "s1 \<le> start0 + 1" .
  from find_end_bounds[OF e2] lt ov have c: "e1 \<le> e2" by auto
  from find_start_bound[OF s2] have d: "s2 \<le> e1 - section_overlap self + 1" .
  have "{s1..<e1} \<inter> {s2..<e2} = {max s1 s2..<e1}" using c by auto
  then have "card ({s1..<e1} \<inter> {s2..<e2}) = nat (e1 - max s1 s2)"
    by (simp only: card_atLeastLessThan_int)
  then have "int (card ({s1..<e1} \<inter> {s2..<e2})) = max 0 (e1 - max s1 s2)"
    by (simp add: max_def)
  moreover have "section_overlap self - 1 \<le> e1 - max s1 s2" using a b d ov by auto
  ultimately have "section_overlap self - 1 \<le> int (card ({s1..<e1} \<inter> {s2..<e2}))" by simp
  with next_start_plain[OF plain] c d show ?thesis by simp
qed

theorem successor_window_overlap_witness:
  "section_overlap (init 500) \<le> max_section_length (init 500) \<and>
   find_end (init 500) overlap_text 0 = Inr 1001 \<and>
   find_start (init 500) overlap_text 0 1001 = Inr 0 \<and>
   \<not> unclosed_figure (init 500) (slice overlap_text 0 1001) \<and>
   (1001 - section_overlap (init 500)) + section_overlap (init 500) < len overlap_text \<and>
   find_end (init 500) overlap_text (1001 - section_overlap (init 500)) = Inr 1100 \<and>
   find_start (init 500) overlap_text (1001 - section_overlap (init 500)) 1100 = Inr 902 \<and>
   next_start (init 500) overlap_doc (slice overlap_text 0 1001) 0 1001 = Inr 901 \<and>
   section_overlap (init 500) - 1 \<le> int (card ({0..<1001} \<inter> {902..<1100 :: int}))"
  using successor_window_overlap
    [of "init 500" overlap_text 0 1001 0 1100 902 overlap_doc]
    overlap_text_windows overlap_text_plain [of 0 1001]
  by (simp add: init_fields overlap_text_chars)

text \<open>
  C4 as stated fails: with the values of \<open>__init__\<close> and sentence endings at indices
  901 and 1000, the first window is \<open>[0, 1001)\<close>, the next start 901 is a sentence ending,
  the start adjustment steps past it, and the second window \<open>[902, 1100)\<close> shares 99
  characters with the first, fewer than \<open>section_overlap = 100\<close>.
\<close>

theorem successor_window_overlap_counterexample:
  "find_end (init 500) overlap_text 0 = Inr 1001 \<and>
   find_start (init 500) overlap_text 0 1001 = Inr 0 \<and>
   \<not> unclosed_figure (init 500) (slice overlap_text 0 1001) \<and>
   next_start (init 500) overlap_doc (slice overlap_text 0 1001) 0 1001 = Inr 901 \<and>
   901 + section_overlap (init 500) < len overlap_text \<and>
   find_end (init 500) overlap_text 901 = Inr 1100 \<and>
   find_start (init 500) overlap_text 901 1100 = Inr 902 \<and>
   int (card ({0..<1001} \<inter> {902..<1100 :: int})) = 99 \<and>
   int (card ({0..<1001} \<inter> {902..<1100 :: int})) < section_overlap (init 500)"
  using overlap_text_windows overlap_text_plain [of 0 1001]
    next_start_plain [OF overlap_text_plain [of 0 1001], of overlap_doc 0 1001]
  by (simp add: init_fields overlap_text_chars)

end
